theory Spec2Isabelle
  imports Main
begin

section \<open>Python values used by the program\<close>

text \<open>
  Exceptions the modelled code can raise. A function that can raise returns
  \<open>error + 'a\<close>, with \<open>Inl\<close> for the exception.
\<close>

datatype error = IndexError | TypeError | KeyError | UnboundLocalError | Diverged

fun bind_err :: "error + 'a \<Rightarrow> ('a \<Rightarrow> error + 'b) \<Rightarrow> error + 'b" where
  "bind_err (Inl e) f = Inl e"
| "bind_err (Inr x) f = f x"

text \<open>Python list indexing with a non-negative index: \<open>xs[i]\<close>.\<close>

definition nth_err :: "'a list \<Rightarrow> nat \<Rightarrow> error + 'a" where
  "nth_err xs i = (if i < length xs then Inr (xs ! i) else Inl IndexError)"

text \<open>Python item assignment \<open>xs[i] = v\<close> with a non-negative index.\<close>

definition set_err :: "'a list \<Rightarrow> nat \<Rightarrow> 'a \<Rightarrow> error + 'a list" where
  "set_err xs i v = (if i < length xs then Inr (xs[i := v]) else Inl IndexError)"

text \<open>Python slice \<open>s[i:j]\<close> of a string for non-negative bounds (it clamps, never raises).\<close>

definition slice :: "string \<Rightarrow> nat \<Rightarrow> nat \<Rightarrow> string" where
  "slice s i j = take (j - i) (drop i s)"

section \<open>url_string.py\<close>

definition TERMINATOR :: char where
  "TERMINATOR = CHR ''$''"

record URLString =
  string :: string
  true_positions :: "nat list"

text \<open>
  The \<open>while\<close> loop of \<open>update_true_positions\<close>, from index \<open>i\<close>: the positions it
  appends, in order. A percent sign advances by three, a terminator stops the scan.
\<close>

function scan_positions :: "string \<Rightarrow> nat \<Rightarrow> nat list" where
  "scan_positions s i =
     (if i < length s then
        i # (if s ! i = CHR ''%'' then scan_positions s (i + 2 + 1)
             else if s ! i = TERMINATOR then []
             else scan_positions s (i + 1))
      else [])"
  by pat_completeness auto
termination
  by (relation "measure (\<lambda>(s, i). length s - i)") auto

declare scan_positions.simps [simp del]

definition update_true_positions :: "URLString \<Rightarrow> URLString" where
  "update_true_positions u =
     u\<lparr>true_positions := scan_positions (string u) 0 @ [length (string u)]\<rparr>"

text \<open>\<open>URLString(string)\<close>: the constructor.\<close>

definition URLString_init :: "string \<Rightarrow> URLString" where
  "URLString_init s = update_true_positions \<lparr>string = s, true_positions = []\<rparr>"

text \<open>\<open>__len__\<close>: the number of tokens.\<close>

definition len :: "URLString \<Rightarrow> nat" where
  "len u = length (true_positions u) - 1"

text \<open>\<open>__getitem__\<close> with an integer key \<open>key \<ge> 0\<close>.\<close>

definition getitem :: "URLString \<Rightarrow> nat \<Rightarrow> error + URLString" where
  "getitem u key =
     bind_err (nth_err (true_positions u) key) (\<lambda>i.
     bind_err (nth_err (true_positions u) (key + 1)) (\<lambda>j.
     Inr (URLString_init (slice (string u) i j))))"

text \<open>
  \<open>__getitem__\<close> with a slice key \<open>start:stop\<close>; \<open>None\<close> is an omitted bound. A bound
  that is falsy (omitted or 0) is not looked up in the table.
\<close>

definition slice_bound :: "URLString \<Rightarrow> nat option \<Rightarrow> error + nat option" where
  "slice_bound u b =
     (case b of None \<Rightarrow> Inr None
      | Some k \<Rightarrow> if k = 0 then Inr None
                  else bind_err (nth_err (true_positions u) k) (\<lambda>p. Inr (Some p)))"

definition getslice :: "URLString \<Rightarrow> nat option \<Rightarrow> nat option \<Rightarrow> error + URLString" where
  "getslice u start stop =
     bind_err (slice_bound u start) (\<lambda>i.
     bind_err (slice_bound u stop) (\<lambda>j.
     Inr (URLString_init
       (slice (string u) (case i of None \<Rightarrow> 0 | Some p \<Rightarrow> p)
                         (case j of None \<Rightarrow> length (string u) | Some p \<Rightarrow> p)))))"

text \<open>
  The right operand of \<open>==\<close> and \<open>+\<close>: another URLString or a plain string.
\<close>

datatype pyval = Url URLString | Str string

text \<open>\<open>__eq__\<close>.\<close>

fun URLString_eq :: "URLString \<Rightarrow> pyval \<Rightarrow> bool" where
  "URLString_eq self (Url other) = (string self = string other)"
| "URLString_eq self (Str other) = (string self = other)"

text \<open>
  The class defines \<open>__eq__\<close> and no \<open>__hash__\<close>. Python then sets \<open>__hash__\<close> of
  the class to \<open>None\<close>: \<open>hash(u)\<close> raises TypeError for every instance, and the
  program keys its dictionaries by the raw text \<open>u.string\<close>.
\<close>

definition URLString_hash :: "URLString \<Rightarrow> error + int" where
  "URLString_hash self = Inl TypeError"

text \<open>\<open>__add__\<close>.\<close>

fun URLString_add :: "URLString \<Rightarrow> pyval \<Rightarrow> URLString" where
  "URLString_add self (Url new_string) = URLString_init (string self @ string new_string)"
| "URLString_add self (Str new_string) = URLString_init (string self @ new_string)"

text \<open>
  \<open>join\<close> with a URLString argument, as every call site has it. The receiver is
  mutated in place: the result is its new value.
\<close>

definition join :: "URLString \<Rightarrow> URLString \<Rightarrow> nat \<Rightarrow> error + URLString" where
  "join self join_string overlap =
     bind_err (getslice join_string (Some overlap) None) (\<lambda>rest.
     Inr (update_true_positions (self\<lparr>string := string self @ string rest\<rparr>)))"

text \<open>
  \<open>to_convention_text\<close> calls the standard library's \<open>unquote_plus\<close>, which replaces
  every plus sign by a space and then returns the text unchanged when it holds no percent
  sign. The library's decoding of percent escapes (bytes, then UTF-8) is the parameter
  \<open>unquote\<close>.
\<close>

definition unquote_plus :: "(string \<Rightarrow> string) \<Rightarrow> string \<Rightarrow> string" where
  "unquote_plus unquote s =
     (let s' = map (\<lambda>c. if c = CHR ''+'' then CHR '' '' else c) s
      in if CHR ''%'' \<in> set s' then unquote s' else s')"

definition to_convention_text :: "(string \<Rightarrow> string) \<Rightarrow> URLString \<Rightarrow> string" where
  "to_convention_text unquote self = unquote_plus unquote (string self)"

section \<open>url_suffix_tree.py\<close>

definition EMPTY_URL_STRING :: URLString where
  "EMPTY_URL_STRING = URLString_init []"

text \<open>
  A node owns its children: the dictionary is an association list in insertion order,
  keyed by the raw text of the first token of the child's edge label.
\<close>

datatype node =
  Node (node_string: URLString) (identity: "(nat \<times> nat) option") (children: "(string \<times> node) list")

fun dict_get :: "('k \<times> 'v) list \<Rightarrow> 'k \<Rightarrow> 'v option" where
  "dict_get [] k = None"
| "dict_get ((k', v) # d) k = (if k' = k then Some v else dict_get d k)"

text \<open>\<open>d[k] = v\<close>: an existing key keeps its place, a new key goes to the end.\<close>

fun dict_set :: "('k \<times> 'v) list \<Rightarrow> 'k \<Rightarrow> 'v \<Rightarrow> ('k \<times> 'v) list" where
  "dict_set [] k v = [(k, v)]"
| "dict_set ((k', v') # d) k v = (if k' = k then (k', v) # d else (k', v') # dict_set d k v)"

text \<open>\<open>URLSuffixTreeNode.split\<close>; the node is mutated in place, the result is its new value.\<close>

definition split :: "node \<Rightarrow> int \<Rightarrow> URLString \<Rightarrow> (nat \<times> nat) option \<Rightarrow> error + node" where
  "split self split_point new_back_string new_identity =
     (if split_point \<le> 0 then
        bind_err (getitem new_back_string 0) (\<lambda>nk.
        Inr (Node (node_string self) (identity self)
               (dict_set (children self) (string nk) (Node new_back_string new_identity []))))
      else
        bind_err (getslice (node_string self) None (Some (nat split_point))) (\<lambda>front_string.
        bind_err (getslice (node_string self) (Some (nat split_point)) None) (\<lambda>old_back_string.
        let old_node = Node old_back_string (identity self) (children self);
            new_node = Node new_back_string new_identity []
        in bind_err (getitem old_back_string 0) (\<lambda>ok.
           bind_err (getitem new_back_string 0) (\<lambda>nk.
           Inr (Node front_string None
                  (dict_set (dict_set [] (string ok) old_node) (string nk) new_node)))))))"

lemma bind_err_cong [fundef_cong]:
  "m = m' \<Longrightarrow> (\<And>x. m' = Inr x \<Longrightarrow> f x = f' x) \<Longrightarrow> bind_err m f = bind_err m' f'"
  by (cases m') auto

lemma getitem_in_range: "getitem u c = Inr t \<Longrightarrow> c < len u"
  by (cases "c < length (true_positions u)"; cases "c + 1 < length (true_positions u)")
     (auto simp: getitem_def nth_err_def len_def)

text \<open>
  The \<open>for\<close> loop of \<open>insert\<close>, at iteration \<open>c\<close> with the loop state
  \<open>(cur_node, index)\<close>. \<open>insert_loop\<close> is the first \<open>if\<close> of the body (the edge
  label is exhausted: look the next token up among the children, or set the index to
  \<open>-1\<close>), \<open>insert_cmp\<close> the second (compare, split and stop, or advance). Moving to
  a child continues the loop inside that child; the parent keeps the child under the same
  key.
\<close>

function insert_loop :: "node \<Rightarrow> nat \<Rightarrow> URLString \<Rightarrow> nat \<times> nat \<Rightarrow> nat \<Rightarrow> error + node"
  and insert_cmp :: "node \<Rightarrow> nat \<Rightarrow> URLString \<Rightarrow> nat \<times> nat \<Rightarrow> nat \<Rightarrow> error + node"
where
  "insert_loop cur_node index suffix str_id c =
     (if c < len suffix then
        if index = len (node_string cur_node) then
          bind_err (getitem suffix c) (\<lambda>sc.
          case dict_get (children cur_node) (string sc) of
            None \<Rightarrow>
              bind_err (getslice suffix (Some c) None) (\<lambda>back.
              split cur_node (- 1) back (Some str_id))
          | Some child \<Rightarrow>
              bind_err (insert_cmp child 0 suffix str_id c) (\<lambda>child'.
              Inr (Node (node_string cur_node) (identity cur_node)
                     (dict_set (children cur_node) (string sc) child'))))
        else insert_cmp cur_node index suffix str_id c
      else Inr cur_node)"
| "insert_cmp cur_node index suffix str_id c =
     bind_err (getitem suffix c) (\<lambda>sc.
     bind_err (getitem (node_string cur_node) index) (\<lambda>nc.
     if \<not> URLString_eq sc (Url nc) then
       bind_err (getslice suffix (Some c) None) (\<lambda>back.
       split cur_node (int index) back (Some str_id))
     else insert_loop cur_node (index + 1) suffix str_id (c + 1)))"
  by pat_completeness auto
termination
  by (relation "measure (\<lambda>x. case x of
         Inl (n, i, suffix, sid, c) \<Rightarrow> 2 * (len suffix - c) + 1
       | Inr (n, i, suffix, sid, c) \<Rightarrow> 2 * (len suffix - c))")
     (auto dest: getitem_in_range)

declare insert_loop.simps [simp del] insert_cmp.simps [simp del]

record URLSuffixTree =
  root :: node
  min_suffix_len :: nat

text \<open>\<open>URLSuffixTree(min_suffix_len)\<close>.\<close>

definition URLSuffixTree_init :: "nat \<Rightarrow> URLSuffixTree" where
  "URLSuffixTree_init m = \<lparr>root = Node EMPTY_URL_STRING None [], min_suffix_len = m\<rparr>"

text \<open>Python's \<open>str\<close> of a non-negative integer: its decimal digits.\<close>

fun str_nat :: "nat \<Rightarrow> string" where
  "str_nat n =
     (if n < 10 then [char_of (48 + n)]
      else str_nat (n div 10) @ [char_of (48 + n mod 10)])"

declare str_nat.simps [simp del]

text \<open>
  The boundary table of a URLString is the one its raw text gives: every URLString the
  program builds has this property, as each change of the text recomputes the table.
\<close>

definition consistent :: "URLString \<Rightarrow> bool" where
  "consistent u \<longleftrightarrow> true_positions u = scan_positions (string u) 0 @ [length (string u)]"

lemma scan_positions_ge: "p \<in> set (scan_positions s i) \<Longrightarrow> i \<le> p"
proof (induction s i rule: scan_positions.induct)
  case (1 s i)
  show ?case
  proof (cases "i < length s")
    case True
    with "1.prems" "1.IH" show ?thesis
      by (subst (asm) scan_positions.simps) (fastforce split: if_splits)
  next
    case False
    with "1.prems" show ?thesis by (subst (asm) scan_positions.simps) simp
  qed
qed

lemma scan_positions_lt: "p \<in> set (scan_positions s i) \<Longrightarrow> p < length s"
proof (induction s i rule: scan_positions.induct)
  case (1 s i)
  show ?case
  proof (cases "i < length s")
    case True
    with "1.prems" "1.IH" show ?thesis
      by (subst (asm) scan_positions.simps) (fastforce split: if_splits)
  next
    case False
    with "1.prems" show ?thesis by (subst (asm) scan_positions.simps) simp
  qed
qed

lemma consistent_init [simp]: "consistent (URLString_init s)"
  by (simp add: consistent_def URLString_init_def update_true_positions_def)

lemma string_init [simp]: "string (URLString_init s) = s"
  by (simp add: URLString_init_def update_true_positions_def)

lemma second_position_pos:
  assumes "consistent u" and "1 < length (true_positions u)"
  shows "0 < true_positions u ! 1"
proof -
  let ?s = "string u"
  from assms have ne: "0 < length ?s"
    by (cases "0 < length ?s") (auto simp: consistent_def scan_positions.simps [of ?s 0])
  have "\<exists>rest. scan_positions ?s 0 = 0 # rest \<and> (\<forall>p \<in> set rest. 1 \<le> p)"
    using ne by (simp add: scan_positions.simps [of ?s 0]) (auto dest!: scan_positions_ge)
  then obtain rest where sc: "scan_positions ?s 0 = 0 # rest" and
    rest: "\<forall>p \<in> set rest. 1 \<le> p"
    by blast
  show ?thesis
  proof (cases rest)
    case Nil
    with sc assms ne show ?thesis by (simp add: consistent_def)
  next
    case (Cons q qs)
    with sc rest assms show ?thesis by (simp add: consistent_def)
  qed
qed

lemma getslice_tail_shorter:
  assumes "getslice u (Some 1) None = Inr rest"
  shows "consistent rest"
    and "length (string rest) \<le> length (string u)"
    and "consistent u \<Longrightarrow> length (string rest) < length (string u)"
proof -
  from assms have lt: "1 < length (true_positions u)"
    by (cases "1 < length (true_positions u)")
       (auto simp: getslice_def slice_bound_def nth_err_def)
  with assms have rest: "rest = URLString_init (slice (string u) (true_positions u ! 1) (length (string u)))"
    by (auto simp: getslice_def slice_bound_def nth_err_def)
  show "consistent rest" by (simp add: rest)
  show "length (string rest) \<le> length (string u)" by (simp add: rest slice_def)
  assume "consistent u"
  then have "0 < true_positions u ! 1" using lt by (rule second_position_pos)
  moreover have "0 < length (string u)"
    using \<open>consistent u\<close> lt
    by (cases "0 < length (string u)") (auto simp: consistent_def scan_positions.simps [of "string u" 0])
  ultimately show "length (string rest) < length (string u)"
    by (simp add: rest slice_def)
qed

text \<open>
  \<open>URLSuffixTree.insert\<close>: the string with its terminator is walked into the tree, then
  the method calls itself on the string without its first token.
\<close>

function insert :: "URLSuffixTree \<Rightarrow> URLString \<Rightarrow> nat \<times> nat \<Rightarrow> error + URLSuffixTree" where
  "insert self s str_id =
     (if len s < min_suffix_len self then Inr self
      else
        let suffix = URLString_add s (Str (TERMINATOR # str_nat (fst str_id)))
        in bind_err (insert_loop (root self) 0 suffix str_id 0) (\<lambda>root'.
           bind_err (getslice s (Some 1) None) (\<lambda>rest.
           insert (self\<lparr>root := root'\<rparr>) rest (fst str_id, snd str_id + 1))))"
  by pat_completeness auto
termination
proof (relation "measure (\<lambda>(self, s, str_id).
         2 * length (string s) + (if consistent s then 0 else 1))", goal_cases)
  case 1
  show ?case by simp
next
  case (2 self s str_id suffix root' rest)
  from getslice_tail_shorter [OF 2(4)] show ?case
    by (cases "consistent s") auto
qed

declare insert.simps [simp del]

section \<open>main.py\<close>

definition MIN_OVERLAP :: nat where
  "MIN_OVERLAP = 3"

text \<open>
  An entry of the match stack: the fragment that owns the suffix, and the path text. An
  entry of \<open>join_array\<close> is the integer 0 it was created with (\<open>None\<close> here) or a
  copy of the match stack.
\<close>

type_synonym match = "nat \<times> URLString"
type_synonym join_entry = "match list option"

text \<open>
  \<open>term\<close>: the keys whose first character is the terminator. \<open>key[0]\<close> raises on an
  empty key.
\<close>

fun term_keys :: "(string \<times> node) list \<Rightarrow> error + string list" where
  "term_keys [] = Inr []"
| "term_keys ((key, child) # d) =
     (case key of
        [] \<Rightarrow> Inl IndexError
      | k # _ \<Rightarrow> bind_err (term_keys d) (\<lambda>ks. Inr (if k = TERMINATOR then key # ks else ks)))"

text \<open>
  The push loop over \<open>term\<close>: the stack after the pushes, and \<open>stack_pushed\<close>.
  Reading \<open>identity[1]\<close> of a child without identity raises.
\<close>

fun push_matches ::
  "(string \<times> node) list \<Rightarrow> string list \<Rightarrow> URLString \<Rightarrow> match list \<Rightarrow> nat \<Rightarrow> error + (match list \<times> nat)"
where
  "push_matches chs [] s match_stack stack_pushed = Inr (match_stack, stack_pushed)"
| "push_matches chs (t # ts) s match_stack stack_pushed =
     (case dict_get chs t of
        None \<Rightarrow> Inl KeyError
      | Some child \<Rightarrow>
          (case identity child of
             None \<Rightarrow> Inl TypeError
           | Some ident \<Rightarrow>
               if snd ident \<noteq> 0
               then push_matches chs ts s (match_stack @ [(fst ident, s)]) (stack_pushed + 1)
               else push_matches chs ts s match_stack stack_pushed))"

text \<open>The pop loop: \<open>pop\<close> on an empty list raises.\<close>

fun pop_matches :: "match list \<Rightarrow> nat \<Rightarrow> error + match list" where
  "pop_matches match_stack 0 = Inr match_stack"
| "pop_matches match_stack (Suc n) =
     (if match_stack = [] then Inl IndexError else pop_matches (butlast match_stack) n)"

text \<open>
  \<open>dfs_join\<close>, with the two lists it mutates passed through: the match stack and
  \<open>join_array\<close>. \<open>dfs_children\<close> is the loop over \<open>node.children.values()\<close>.
\<close>

fun dfs_join ::
    "node \<Rightarrow> URLString \<Rightarrow> match list \<Rightarrow> join_entry list \<Rightarrow> error + (match list \<times> join_entry list)"
  and dfs_children ::
    "(string \<times> node) list \<Rightarrow> URLString \<Rightarrow> match list \<Rightarrow> join_entry list \<Rightarrow> error + (match list \<times> join_entry list)"
where
  "dfs_join (Node nstr ident chs) s match_stack join_array =
     (if (case ident of None \<Rightarrow> False | Some i \<Rightarrow> snd i = 0) then
        bind_err (set_err join_array (fst (the ident)) (Some match_stack)) (\<lambda>ja.
        Inr (match_stack, ja))
      else
        bind_err (term_keys chs) (\<lambda>term.
        bind_err (if term \<noteq> [] \<and> MIN_OVERLAP \<le> len s
                  then push_matches chs term s match_stack 0
                  else Inr (match_stack, 0)) (\<lambda>(ms, stack_pushed).
        bind_err (dfs_children chs s ms join_array) (\<lambda>(ms', ja).
        bind_err (pop_matches ms' stack_pushed) (\<lambda>ms''.
        Inr (ms'', ja))))))"
| "dfs_children [] s match_stack join_array = Inr (match_stack, join_array)"
| "dfs_children ((key, child) # d) s match_stack join_array =
     bind_err (dfs_join child (URLString_add s (Url (node_string child))) match_stack join_array)
       (\<lambda>(ms, ja). dfs_children d s ms ja)"

text \<open>
  The arrays \<open>stitch\<close> mutates. \<open>stitchings\<close> holds a fragment index or \<open>-1\<close>.
\<close>

record search_state =
  seen_array :: "nat list"
  stitchings :: "int list"
  overlaps :: "nat list"

text \<open>\<open>xs.index(v)\<close>: the first position of \<open>v\<close>; \<open>None\<close> is the ValueError.\<close>

fun index_of :: "'a list \<Rightarrow> 'a \<Rightarrow> nat option" where
  "index_of [] v = None"
| "index_of (x # xs) v = (if x = v then Some 0 else map_option Suc (index_of xs v))"

text \<open>
  The \<open>while\<close> loop of the stitch attempt, over \<open>stitchings\<close> (\<open>sts\<close>) and
  \<open>overlaps\<close> (\<open>ovs\<close>). The list \<open>stitch_attempt\<close> (\<open>sa\<close>) is a list of references
  into \<open>heap\<close>, the URLString objects of the deep copy: \<open>join\<close> mutates the object
  that \<open>stitch_attempt[cur_index]\<close> refers to, and the assignment makes
  \<open>stitch_attempt[next_index]\<close> refer to the same object. A ValueError of \<open>index\<close> ends
  the loop. The first argument bounds the number of iterations; running out of it is
  \<open>Diverged\<close>.
\<close>

fun trace ::
  "nat \<Rightarrow> int \<Rightarrow> int list \<Rightarrow> nat list \<Rightarrow> nat list \<Rightarrow> URLString list \<Rightarrow> error + (nat list \<times> URLString list)"
where
  "trace 0 cur_index sts ovs sa heap = Inl Diverged"
| "trace (Suc fuel) cur_index sts ovs sa heap =
     (case index_of sts cur_index of
        None \<Rightarrow> Inr (sa, heap)
      | Some cur \<Rightarrow>
          (case index_of sts (int cur) of
             None \<Rightarrow> Inr (sa, heap)
           | Some next_index \<Rightarrow>
               bind_err (nth_err sa cur) (\<lambda>r.
               bind_err (nth_err heap r) (\<lambda>self.
               bind_err (nth_err sa next_index) (\<lambda>rn.
               bind_err (nth_err heap rn) (\<lambda>other.
               bind_err (nth_err ovs next_index) (\<lambda>ov.
               bind_err (join self other ov) (\<lambda>joined.
               trace fuel (int cur) sts ovs (sa[next_index := r]) (heap[r := joined])))))))))"

text \<open>
  The stitch attempt (\<open>index == len(join_array)\<close>): deep copy, trace, and the test that
  every entry of \<open>stitch_attempt\<close> equals the first. \<open>count\<close> compares with \<open>==\<close>.
\<close>

definition stitch_attempt ::
  "(string \<Rightarrow> string) \<Rightarrow> search_state \<Rightarrow> URLString list \<Rightarrow> error + string option"
where
  "stitch_attempt unquote st fragments =
     bind_err (trace (length (stitchings st) + 1) (- 1) (stitchings st) (overlaps st)
                 [0 ..< length fragments] fragments) (\<lambda>(sa, heap).
     bind_err (nth_err sa 0) (\<lambda>r0.
     if length (filter (\<lambda>r. URLString_eq (heap ! r) (Url (heap ! r0))) sa) = length sa
     then Inr (Some (to_convention_text unquote (heap ! r0)))
     else Inr None))"

text \<open>Truth value of a result: \<open>None\<close> and the empty text are false.\<close>

fun truthy :: "string option \<Rightarrow> bool" where
  "truthy None = False"
| "truthy (Some s) = (s \<noteq> [])"

text \<open>
  \<open>stitch\<close>, and \<open>stitch_loop\<close> for its \<open>for\<close> loop at iteration \<open>i\<close> over the
  candidates of fragment \<open>k = search[index]\<close>, read from the back. Both return the
  result with the state of the three arrays.
\<close>

function stitch ::
    "(string \<Rightarrow> string) \<Rightarrow> join_entry list \<Rightarrow> nat \<Rightarrow> nat list \<Rightarrow> search_state \<Rightarrow> URLString list
       \<Rightarrow> error + (string option \<times> search_state)"
  and stitch_loop ::
    "(string \<Rightarrow> string) \<Rightarrow> join_entry list \<Rightarrow> nat \<Rightarrow> nat list \<Rightarrow> search_state \<Rightarrow> URLString list
       \<Rightarrow> nat \<Rightarrow> match list \<Rightarrow> nat \<Rightarrow> error + (string option \<times> search_state)"
where
  "stitch unquote join_array index search st fragments =
     (if index = length join_array then
        bind_err (stitch_attempt unquote st fragments) (\<lambda>result. Inr (result, st))
      else
        bind_err (nth_err search index) (\<lambda>k.
        bind_err (nth_err join_array k) (\<lambda>entry.
        case entry of
          None \<Rightarrow> Inl TypeError
        | Some cands \<Rightarrow>
            if length cands = 0 then
              bind_err (set_err (stitchings st) k (- 1)) (\<lambda>sts.
              bind_err (stitch unquote join_array (index + 1) search (st\<lparr>stitchings := sts\<rparr>) fragments)
                (\<lambda>(result, st'). if truthy result then Inr (result, st') else Inr (None, st')))
            else stitch_loop unquote join_array index search st fragments k cands 0)))"
| "stitch_loop unquote join_array index search st fragments k cands i =
     (if i < length cands then
        let cand = cands ! (length cands - (i + 1)) in
        bind_err (nth_err (seen_array st) (fst cand)) (\<lambda>seen.
        if seen \<noteq> 0 then stitch_loop unquote join_array index search st fragments k cands (i + 1)
        else
          bind_err (set_err (stitchings st) k (int (fst cand))) (\<lambda>sts.
          bind_err (set_err (overlaps st) k (len (snd cand))) (\<lambda>ovs.
          bind_err (set_err (seen_array st) (fst cand) 1) (\<lambda>seen1.
          bind_err (stitch unquote join_array (index + 1) search
                      (st\<lparr>seen_array := seen1, stitchings := sts, overlaps := ovs\<rparr>) fragments)
            (\<lambda>(result, st').
               if truthy result then Inr (result, st')
               else
                 bind_err (set_err (seen_array st') (fst cand) 0) (\<lambda>seen0.
                 stitch_loop unquote join_array index search (st'\<lparr>seen_array := seen0\<rparr>)
                   fragments k cands (i + 1)))))))
      else Inr (None, st))"
  by pat_completeness auto
termination
  by (relation "inv_image (less_than <*lex*> less_than) (\<lambda>x. case x of
         Inl (u, ja, index, search, st, fr) \<Rightarrow> (length search + 1 - index, 0)
       | Inr (u, ja, index, search, st, fr, k, cands, i) \<Rightarrow>
           (length search - index, length cands + 1 - i))")
     (auto simp: nth_err_def split: if_splits)

declare stitch.simps [simp del] stitch_loop.simps [simp del]

text \<open>
  \<open>str.rstrip()\<close>: trailing whitespace is removed. Whitespace among the characters
  below 256: tab to carriage return, the four separators from 28 to 31, the space, and
  the code points 133 and 160.
\<close>

definition isspace :: "char \<Rightarrow> bool" where
  "isspace c \<longleftrightarrow> (let n = of_char c :: nat in
     (9 \<le> n \<and> n \<le> 13) \<or> (28 \<le> n \<and> n \<le> 32) \<or> n = 133 \<or> n = 160)"

definition rstrip :: "string \<Rightarrow> string" where
  "rstrip s = rev (dropWhile isspace (rev s))"

text \<open>
  Step 1 of \<open>reconstruct\<close>: the loop over the lines of the input, from line number
  \<open>i\<close>, with the fragments read so far and the tree.
\<close>

fun build ::
  "string list \<Rightarrow> nat \<Rightarrow> URLString list \<Rightarrow> URLSuffixTree \<Rightarrow> error + (URLString list \<times> URLSuffixTree)"
where
  "build [] i fragments suffix_tree = Inr (fragments, suffix_tree)"
| "build (frag # rest) i fragments suffix_tree =
     (let fragments' = fragments @ [URLString_init (rstrip frag)] in
      bind_err (nth_err fragments' i) (\<lambda>f.
      bind_err (insert suffix_tree (URLString_init (string f)) (i, 0)) (\<lambda>t.
      build rest (i + 1) fragments' t)))"

text \<open>\<open>len(x)\<close> of an entry of \<open>join_array\<close>: the integer 0 has no length.\<close>

fun entry_len :: "join_entry \<Rightarrow> error + nat" where
  "entry_len None = Inl TypeError"
| "entry_len (Some ms) = Inr (length ms)"

fun entry_lens :: "join_entry list \<Rightarrow> error + nat list" where
  "entry_lens [] = Inr []"
| "entry_lens (e # es) =
     bind_err (entry_len e) (\<lambda>n. bind_err (entry_lens es) (\<lambda>ns. Inr (n # ns)))"

text \<open>
  The search order: the fragment indices sorted by the size of their entry (the sort is
  stable), and the three arrays of zeros.
\<close>

definition search_order :: "nat list \<Rightarrow> nat list" where
  "search_order lens = sort_key (\<lambda>x. lens ! x) [0 ..< length lens]"

definition initial_state :: "nat \<Rightarrow> search_state" where
  "initial_state n = \<lparr>seen_array = replicate n 0, stitchings = replicate n 0, overlaps = replicate n 0\<rparr>"

text \<open>
  The \<open>for\<close> loop of the branch without an empty entry, at iteration \<open>j\<close>. The
  variable \<open>result\<close> is \<open>None\<close> while it is unbound.
\<close>

function forced_heads ::
  "(string \<Rightarrow> string) \<Rightarrow> join_entry list \<Rightarrow> nat list \<Rightarrow> URLString list \<Rightarrow> nat \<Rightarrow> string option option
     \<Rightarrow> error + string option option"
where
  "forced_heads unquote join_array lens fragments j result =
     (if j < length join_array then
        let join_array_copy = join_array[j := Some []];
            search = search_order (lens[j := 0])
        in bind_err (stitch unquote join_array_copy 0 search (initial_state (length fragments)) fragments)
             (\<lambda>(r, st). if truthy r then Inr (Some r)
                        else forced_heads unquote join_array lens fragments (j + 1) (Some r))
      else Inr result)"
  by pat_completeness auto
termination
  by (relation "measure (\<lambda>(u, ja, lens, fr, j, r). length ja - j)") auto

declare forced_heads.simps [simp del]

text \<open>
  \<open>reconstruct\<close> on the lines of the input. The result is the value returned (the
  decoded text, or \<open>None\<close>); printing it is left out.
\<close>

definition reconstruct :: "(string \<Rightarrow> string) \<Rightarrow> string list \<Rightarrow> error + string option" where
  "reconstruct unquote lines =
     bind_err (build lines 0 [] (URLSuffixTree_init MIN_OVERLAP)) (\<lambda>(fragments, suffix_tree).
     bind_err (dfs_join (root suffix_tree) (node_string (root suffix_tree)) []
                 (replicate (length fragments) None)) (\<lambda>(ms, join_array).
     bind_err (entry_lens join_array) (\<lambda>lens.
     if filter (\<lambda>n. n = 0) lens \<noteq> [] then
       bind_err (stitch unquote join_array 0 (search_order lens)
                   (initial_state (length fragments)) fragments) (\<lambda>(result, st).
       Inr result)
     else
       bind_err (forced_heads unquote join_array lens fragments 0 None) (\<lambda>result.
       case result of None \<Rightarrow> Inl UnboundLocalError | Some r \<Rightarrow> Inr r))))"

section \<open>The scan of a raw text\<close>

lemma scan_positions_sorted: "sorted_wrt (<) (scan_positions s i)"
proof (induction s i rule: scan_positions.induct)
  case (1 s i)
  show ?case
  proof (cases "i < length s")
    case True
    have "\<forall>p \<in> set (scan_positions s (i + 2 + 1)). i < p"
      using scan_positions_ge [of _ s "i + 2 + 1"] by fastforce
    moreover have "\<forall>p \<in> set (scan_positions s (i + 1)). i < p"
      using scan_positions_ge [of _ s "i + 1"] by fastforce
    ultimately show ?thesis
      using True "1.IH" by (subst scan_positions.simps) auto
  next
    case False
    then show ?thesis by (subst scan_positions.simps) simp
  qed
qed

lemma true_positions_init:
  "true_positions (URLString_init s) = scan_positions s 0 @ [length s]"
  by (simp add: URLString_init_def update_true_positions_def)

lemma scan_positions_hd: "hd (scan_positions s 0 @ [length s]) = 0"
  by (simp add: scan_positions.simps [of s 0])

text \<open>
  Only the places of the percent signs and of the terminator decide the boundaries: the
  characters after a percent sign are skipped, not read.
\<close>

definition mask_char :: "char \<Rightarrow> char" where
  "mask_char c = (if c = CHR ''%'' \<or> c = TERMINATOR then c else CHR ''x'')"

lemma scan_positions_mask: "scan_positions (map mask_char s) i = scan_positions s i"
proof (induction s i rule: scan_positions.induct)
  case (1 s i)
  show ?case
  proof (cases "i < length s")
    case True
    with "1.IH" show ?thesis
      by (simp add: scan_positions.simps [of s i] scan_positions.simps [of "map mask_char s" i])
         (auto simp: mask_char_def TERMINATOR_def)
  next
    case False
    then show ?thesis
      by (simp add: scan_positions.simps [of s i] scan_positions.simps [of "map mask_char s" i])
  qed
qed

section \<open>Tokens\<close>

text \<open>
  The tokens of a raw text, by recursion on the text: a percent sign with the (at most)
  two characters after it, a terminator with all that follows, or one character.
\<close>

fun toks :: "string \<Rightarrow> string list" where
  "toks [] = []"
| "toks (c # cs) =
     (if c = CHR ''%'' then (c # take 2 cs) # toks (drop 2 cs)
      else if c = TERMINATOR then [c # cs]
      else [c] # toks cs)"

text \<open>The start of each token of a list, the first one starting at \<open>i\<close>.\<close>

fun starts :: "string list \<Rightarrow> nat \<Rightarrow> nat list" where
  "starts [] i = []"
| "starts (t # ts) i = i # starts ts (i + length t)"

text \<open>The tokens of a URLString as \<open>__getitem__\<close> cuts them: between neighbouring boundaries.\<close>

definition tokens :: "URLString \<Rightarrow> string list" where
  "tokens u = map (\<lambda>k. slice (string u) (true_positions u ! k) (true_positions u ! (k + 1)))
                  [0 ..< len u]"

lemma concat_toks [simp]: "concat (toks s) = s"
  by (induction s rule: toks.induct) auto

lemma toks_nonempty: "t \<in> set (toks s) \<Longrightarrow> t \<noteq> []"
  by (induction s rule: toks.induct) (auto split: if_splits)

lemma scan_positions_end: "length s \<le> i \<Longrightarrow> scan_positions s i = []"
  by (subst scan_positions.simps) simp

lemma scan_positions_toks:
  "i \<le> length s \<Longrightarrow> scan_positions s i = starts (toks (drop i s)) i"
proof (induction s i rule: scan_positions.induct)
  case (1 s i)
  show ?case
  proof (cases "i < length s")
    case False
    with "1.prems" show ?thesis by (simp add: scan_positions_end)
  next
    case True
    then have dr: "drop i s = s ! i # drop (Suc i) s"
      by (simp add: Cons_nth_drop_Suc)
    show ?thesis
    proof (cases "s ! i = CHR ''%''")
      case pc: True
      show ?thesis
      proof (cases "i + 2 + 1 \<le> length s")
        case le: True
        with "1.IH"(1) True pc have "scan_positions s (i + 2 + 1) = starts (toks (drop (i + 2 + 1) s)) (i + 2 + 1)"
          by simp
        with True pc le show ?thesis
          by (simp add: scan_positions.simps [of s i] dr add.commute)
      next
        case gt: False
        then have "scan_positions s (i + 2 + 1) = []"
          by (simp add: scan_positions_end)
        with True pc gt show ?thesis
          by (simp add: scan_positions.simps [of s i] dr)
      qed
    next
      case npc: False
      show ?thesis
      proof (cases "s ! i = TERMINATOR")
        case True
        with \<open>i < length s\<close> npc show ?thesis
          by (simp add: scan_positions.simps [of s i] dr)
      next
        case False
        with "1.IH"(2) \<open>i < length s\<close> npc
        have "scan_positions s (i + 1) = starts (toks (drop (i + 1) s)) (i + 1)"
          by simp
        with \<open>i < length s\<close> npc False show ?thesis
          by (simp add: scan_positions.simps [of s i] dr)
      qed
    qed
  qed
qed

lemma starts_length [simp]: "length (starts ts i) = length ts"
  by (induction ts arbitrary: i) auto

lemma starts_nth:
  "k \<le> length ts \<Longrightarrow> (starts ts i @ [i + length (concat ts)]) ! k = i + length (concat (take k ts))"
proof (induction ts arbitrary: i k)
  case Nil
  then show ?case by simp
next
  case (Cons t ts)
  show ?case
  proof (cases k)
    case 0
    then show ?thesis by simp
  next
    case (Suc k')
    with Cons.prems have "k' \<le> length ts" by simp
    from Cons.IH [OF this, of "i + length t"] Suc show ?thesis
      by (simp add: add.assoc)
  qed
qed

lemma consistent_table:
  "consistent u \<Longrightarrow> true_positions u = starts (toks (string u)) 0 @ [length (string u)]"
  by (simp add: consistent_def scan_positions_toks)

lemma consistent_len: "consistent u \<Longrightarrow> len u = length (toks (string u))"
  by (simp add: consistent_table len_def)

lemma consistent_nth:
  assumes "consistent u" and "k \<le> len u"
  shows "true_positions u ! k = length (concat (take k (toks (string u))))"
proof -
  from assms have k: "k \<le> length (toks (string u))" by (simp add: consistent_len)
  have "true_positions u = starts (toks (string u)) 0 @ [0 + length (concat (toks (string u)))]"
    using assms(1) by (simp add: consistent_table)
  with starts_nth [OF k, of 0] show ?thesis by simp
qed

lemma take_concat_take: "take (length (concat (take k ts))) (concat ts) = concat (take k ts)"
proof -
  have "concat ts = concat (take k ts) @ concat (drop k ts)"
    by (metis append_take_drop_id concat_append)
  then show ?thesis by (metis append_eq_conv_conj)
qed

lemma drop_concat_take: "drop (length (concat (take k ts))) (concat ts) = concat (drop k ts)"
proof -
  have "concat ts = concat (take k ts) @ concat (drop k ts)"
    by (metis append_take_drop_id concat_append)
  then show ?thesis by (metis append_eq_conv_conj)
qed

lemma consistent_take:
  "consistent u \<Longrightarrow> k \<le> len u \<Longrightarrow> take (true_positions u ! k) (string u) = concat (take k (toks (string u)))"
  using take_concat_take [of k "toks (string u)"] by (simp add: consistent_nth)

lemma consistent_drop:
  "consistent u \<Longrightarrow> k \<le> len u \<Longrightarrow> drop (true_positions u ! k) (string u) = concat (drop k (toks (string u)))"
  using drop_concat_take [of k "toks (string u)"] by (simp add: consistent_nth)

lemma toks_drop: "toks (concat (drop k (toks s))) = drop k (toks s)"
proof (induction s arbitrary: k rule: toks.induct)
  case 1
  then show ?case by simp
next
  case (2 c cs)
  show ?case
  proof (cases k)
    case 0
    then show ?thesis by simp
  next
    case (Suc k')
    with "2.IH" show ?thesis by auto
  qed
qed

lemma toks_take: "toks (concat (take k (toks s))) = take k (toks s)"
proof (induction s arbitrary: k rule: toks.induct)
  case 1
  then show ?case by simp
next
  case (2 c cs)
  show ?case
  proof (cases k)
    case 0
    then show ?thesis by simp
  next
    case (Suc k')
    show ?thesis
    proof (cases "c = CHR ''%''")
      case True
      with "2.IH"(1) have IH: "toks (concat (take k' (toks (drop 2 cs)))) = take k' (toks (drop 2 cs))"
        by simp
      show ?thesis
      proof (cases "2 \<le> length cs")
        case True
        with \<open>c = CHR ''%''\<close> Suc IH show ?thesis by simp
      next
        case False
        then have "drop 2 cs = []" by simp
        with \<open>c = CHR ''%''\<close> Suc False show ?thesis by simp
      qed
    next
      case False
      with "2.IH"(2) Suc show ?thesis by auto
    qed
  qed
qed

lemma consistent_update [simp]: "consistent (update_true_positions u)"
  by (simp add: consistent_def update_true_positions_def)

lemma string_update [simp]: "string (update_true_positions u) = string u"
  by (simp add: update_true_positions_def)

lemma len_init: "len (URLString_init s) = length (toks s)"
  by (simp add: consistent_len)

lemma getitem_consistent:
  assumes "consistent u"
  shows "getitem u k =
           (if k < len u then Inr (URLString_init (toks (string u) ! k)) else Inl IndexError)"
proof (cases "k < len u")
  case False
  then show ?thesis by (auto simp: getitem_def nth_err_def len_def)
next
  case True
  let ?ts = "toks (string u)"
  from True have k: "k < length ?ts" using assms by (simp add: consistent_len)
  have a: "true_positions u ! k = length (concat (take k ?ts))"
    using assms True by (simp add: consistent_nth)
  have "take (Suc k) ?ts = take k ?ts @ [?ts ! k]"
    using k by (simp add: take_Suc_conv_app_nth)
  moreover have "true_positions u ! Suc k = length (concat (take (Suc k) ?ts))"
    using assms True by (simp add: consistent_nth)
  ultimately have b: "true_positions u ! Suc k = length (concat (take k ?ts)) + length (?ts ! k)"
    by simp
  have "drop (length (concat (take k ?ts))) (string u) = concat (drop k ?ts)"
    using drop_concat_take [of k ?ts] by simp
  also have "\<dots> = ?ts ! k @ concat (drop (Suc k) ?ts)"
    using k by (simp add: Cons_nth_drop_Suc [symmetric])
  finally have "slice (string u) (true_positions u ! k) (true_positions u ! (k + 1)) = ?ts ! k"
    by (simp add: slice_def a b)
  with True show ?thesis by (auto simp: getitem_def nth_err_def len_def)
qed

lemma getslice_from:
  assumes "consistent u"
  shows "getslice u (Some k) None =
           (if k \<le> len u then Inr (URLString_init (concat (drop k (toks (string u)))))
            else Inl IndexError)"
proof (cases "k = 0")
  case True
  then show ?thesis by (simp add: getslice_def slice_bound_def slice_def)
next
  case False
  show ?thesis
  proof (cases "k \<le> len u")
    case gt: False
    with False show ?thesis by (auto simp: getslice_def slice_bound_def nth_err_def len_def)
  next
    case True
    then have "k < length (true_positions u)"
      using assms by (simp add: consistent_table consistent_len)
    moreover have "drop (true_positions u ! k) (string u) = concat (drop k (toks (string u)))"
      using assms True by (rule consistent_drop)
    ultimately show ?thesis
      using False True by (simp add: getslice_def slice_bound_def nth_err_def slice_def)
  qed
qed

lemma getslice_to:
  assumes "consistent u" and "0 < k"
  shows "getslice u None (Some k) =
           (if k \<le> len u then Inr (URLString_init (concat (take k (toks (string u)))))
            else Inl IndexError)"
proof (cases "k \<le> len u")
  case gt: False
  with assms(2) show ?thesis by (auto simp: getslice_def slice_bound_def nth_err_def len_def)
next
  case True
  then have "k < length (true_positions u)"
    using assms by (simp add: consistent_table consistent_len)
  moreover have "take (true_positions u ! k) (string u) = concat (take k (toks (string u)))"
    using assms(1) True by (rule consistent_take)
  ultimately show ?thesis
    using assms(2) True by (simp add: getslice_def slice_bound_def nth_err_def slice_def)
qed

lemma tokens_consistent:
  assumes "consistent u"
  shows "tokens u = toks (string u)"
proof (rule nth_equalityI)
  show "length (tokens u) = length (toks (string u))"
    using assms by (simp add: tokens_def consistent_len)
next
  fix k assume "k < length (tokens u)"
  then have k: "k < len u" by (simp add: tokens_def)
  from getitem_consistent [OF assms, of k] k
  have "slice (string u) (true_positions u ! k) (true_positions u ! (k + 1)) = toks (string u) ! k"
    by (auto simp: getitem_def nth_err_def len_def URLString_init_def update_true_positions_def
             split: if_splits)
  with k show "tokens u ! k = toks (string u) ! k" by (simp add: tokens_def)
qed

text \<open>
  A raw text whose percent signs each start a whole escape: two hexadecimal digits
  follow. This is the text the decoder turns into characters without leaving a piece of
  an escape behind.
\<close>

definition is_hex :: "char \<Rightarrow> bool" where
  "is_hex c \<longleftrightarrow> c \<in> set ''0123456789abcdefABCDEF''"

fun whole_escapes :: "string \<Rightarrow> bool" where
  "whole_escapes [] = True"
| "whole_escapes (c # cs) =
     (if c = CHR ''%'' then
        (case cs of a # b # rest \<Rightarrow> is_hex a \<and> is_hex b \<and> whole_escapes rest | _ \<Rightarrow> False)
      else whole_escapes cs)"

lemma whole_escapes_append:
  "whole_escapes a \<Longrightarrow> whole_escapes b \<Longrightarrow> whole_escapes (a @ b)"
  by (induction a rule: whole_escapes.induct) (auto split: list.splits if_splits)

lemma whole_escapes_drop_toks:
  "whole_escapes s \<Longrightarrow> whole_escapes (concat (drop k (toks s)))"
proof (induction s arbitrary: k rule: toks.induct)
  case 1
  then show ?case by simp
next
  case (2 c cs)
  show ?case
  proof (cases k)
    case 0
    with "2.prems" show ?thesis by simp
  next
    case (Suc k')
    with "2.prems" "2.IH" show ?thesis
      by (auto split: list.splits if_splits)
  qed
qed

lemma take_drop_toks: "concat (take k (toks s)) @ concat (drop k (toks s)) = s"
  by (metis append_take_drop_id concat_append concat_toks)

section \<open>The traversal\<close>

lemma bind_err_Inr_iff: "bind_err m f = Inr y \<longleftrightarrow> (\<exists>x. m = Inr x \<and> f x = Inr y)"
  by (cases m) auto

lemma bind_err_Inl_iff:
  "bind_err m f = Inl e \<longleftrightarrow> m = Inl e \<or> (\<exists>x. m = Inr x \<and> f x = Inl e)"
  by (cases m) auto

lemma toks_append_length: "length (toks a) \<le> length (toks (a @ b))"
proof (induction a rule: toks.induct)
  case 1
  then show ?case by simp
next
  case (2 c cs)
  show ?case
  proof (cases "c = CHR ''%''")
    case True
    show ?thesis
    proof (cases "2 \<le> length cs")
      case le: True
      with True "2.IH"(1) show ?thesis by simp
    next
      case False
      then have "drop 2 cs = []" by simp
      with True show ?thesis by simp
    qed
  next
    case False
    with "2.IH"(2) show ?thesis by auto
  qed
qed

lemma len_add_mono:
  "consistent s \<Longrightarrow> len s \<le> len (URLString_add s (Url l))"
  by (simp add: consistent_len len_init toks_append_length)

text \<open>
  The overlaps of a list of matches, in tokens, and the two conditions the traversal
  keeps: the stack is sorted by overlap and bounded by the current path, and every entry
  of \<open>join_array\<close> that is a list is sorted by overlap.
\<close>

definition overlap_lens :: "match list \<Rightarrow> nat list" where
  "overlap_lens ms = map (\<lambda>m. len (snd m)) ms"

definition stack_ok :: "URLString \<Rightarrow> match list \<Rightarrow> bool" where
  "stack_ok s ms \<longleftrightarrow> sorted (overlap_lens ms) \<and> list_all (\<lambda>n. n \<le> len s) (overlap_lens ms)"

definition entries_sorted :: "join_entry list \<Rightarrow> bool" where
  "entries_sorted ja \<longleftrightarrow> list_all (\<lambda>e. case e of None \<Rightarrow> True | Some l \<Rightarrow> sorted (overlap_lens l)) ja"

lemma push_matches_appends:
  "push_matches chs ts s ms n = Inr (ms', n') \<Longrightarrow>
   \<exists>ps. ms' = ms @ ps \<and> n' = n + length ps \<and> list_all (\<lambda>p. snd p = s) ps"
proof (induction ts arbitrary: ms n)
  case Nil
  then show ?case by simp
next
  case (Cons t ts)
  from Cons.prems obtain child ident where
    ch: "dict_get chs t = Some child" and idt: "identity child = Some ident"
    by (auto split: option.splits)
  show ?case
  proof (cases "snd ident \<noteq> 0")
    case True
    with Cons.prems ch idt
    have "push_matches chs ts s (ms @ [(fst ident, s)]) (n + 1) = Inr (ms', n')" by simp
    from Cons.IH [OF this] obtain ps where
      "ms' = (ms @ [(fst ident, s)]) @ ps" "n' = n + 1 + length ps" "list_all (\<lambda>p. snd p = s) ps"
      by blast
    then show ?thesis
      by (intro exI [of _ "(fst ident, s) # ps"]) simp
  next
    case False
    with Cons.prems ch idt have "push_matches chs ts s ms n = Inr (ms', n')" by simp
    from Cons.IH [OF this] show ?thesis .
  qed
qed

lemma pop_matches_pushed: "pop_matches (ms @ ps) (length ps) = Inr ms"
proof (induction ps rule: rev_induct)
  case Nil
  then show ?case by simp
next
  case (snoc p ps)
  then show ?case by (simp add: butlast_append)
qed

lemma stack_ok_push:
  assumes "stack_ok s ms" and "list_all (\<lambda>p. snd p = s) ps"
  shows "stack_ok s (ms @ ps)"
proof -
  from assms(2) have eq: "\<forall>n \<in> set (overlap_lens ps). n = len s"
    by (auto simp: overlap_lens_def list_all_iff)
  then have "sorted (overlap_lens ps)"
    by (induction ps) (auto simp: overlap_lens_def)
  with assms(1) eq show ?thesis
    by (auto simp: stack_ok_def overlap_lens_def sorted_append list_all_iff)
qed

lemma stack_ok_deeper:
  "stack_ok s ms \<Longrightarrow> len s \<le> len s' \<Longrightarrow> stack_ok s' ms"
  by (auto simp: stack_ok_def list_all_iff)

lemma entries_sorted_update:
  "entries_sorted ja \<Longrightarrow> sorted (overlap_lens ms) \<Longrightarrow> entries_sorted (ja[i := Some ms])"
  by (auto simp: entries_sorted_def list_all_iff dest!: set_update_subset_insert [THEN subsetD])

lemma dfs_join_keeps_order:
  "consistent s \<Longrightarrow> stack_ok s ms \<Longrightarrow> entries_sorted ja \<Longrightarrow>
     dfs_join node s ms ja = Inr (ms', ja') \<Longrightarrow> ms' = ms \<and> entries_sorted ja'"
  "consistent s \<Longrightarrow> stack_ok s ms \<Longrightarrow> entries_sorted ja \<Longrightarrow>
     dfs_children chs s ms ja = Inr (ms', ja') \<Longrightarrow> ms' = ms \<and> entries_sorted ja'"
proof (induction node s ms ja and chs s ms ja arbitrary: ms' ja' and ms' ja'
       rule: dfs_join_dfs_children.induct)
  case (1 nstr ident chs s match_stack join_array)
  show ?case
  proof (cases "case ident of None \<Rightarrow> False | Some i \<Rightarrow> snd i = 0")
    case True
    with "1.prems"(4) have "ms' = match_stack" and "ja' = join_array[fst (the ident) := Some match_stack]"
      by (auto simp: set_err_def split: if_splits)
    with "1.prems"(2,3) show ?thesis
      by (simp add: entries_sorted_update stack_ok_def)
  next
    case False
    with "1.prems"(4) obtain "term" ms1 pushed ms2 ja2 where
      tk: "term_keys chs = Inr term" and
      pu: "(if term \<noteq> [] \<and> MIN_OVERLAP \<le> len s then push_matches chs term s match_stack 0
            else Inr (match_stack, 0)) = Inr (ms1, pushed)" and
      ch: "dfs_children chs s ms1 join_array = Inr (ms2, ja2)" and
      po: "pop_matches ms2 pushed = Inr ms'" and ja': "ja' = ja2"
      by (auto simp: bind_err_Inr_iff)
    from pu obtain ps where ps: "ms1 = match_stack @ ps" "pushed = length ps"
      "list_all (\<lambda>p. snd p = s) ps"
      by (auto split: if_splits dest!: push_matches_appends)
    with "1.prems"(2) have ok1: "stack_ok s ms1" by (simp add: stack_ok_push)
    from "1.IH" [OF False tk _ _ "1.prems"(1) ok1 "1.prems"(3) ch] pu
    have "ms2 = ms1" and "entries_sorted ja2" by auto
    with po ps ja' show ?thesis by (simp add: pop_matches_pushed)
  qed
next
  case (2 s match_stack join_array)
  then show ?case by simp
next
  case (3 key child d s match_stack join_array)
  let ?s' = "URLString_add s (Url (node_string child))"
  from "3.prems"(4) obtain ms1 ja1 where
    c: "dfs_join child ?s' match_stack join_array = Inr (ms1, ja1)" and
    r: "dfs_children d s ms1 ja1 = Inr (ms', ja')"
    by (auto simp: bind_err_Inr_iff)
  have cs: "consistent ?s'" by simp
  have "stack_ok ?s' match_stack"
    using "3.prems"(1,2) by (blast intro: stack_ok_deeper len_add_mono)
  from "3.IH"(1) [OF cs this "3.prems"(3) c] have m1: "ms1 = match_stack" and j1: "entries_sorted ja1"
    by auto
  from "3.IH"(2) [OF _ _ "3.prems"(1) _ j1 r] c m1 "3.prems"(2) show ?case by auto
qed

section \<open>The shape of the tree\<close>

text \<open>
  The label has a token that starts with the terminator; the first token of a label, as
  a list of at most one token.
\<close>

definition has_term :: "URLString \<Rightarrow> bool" where
  "has_term u \<longleftrightarrow> list_ex (\<lambda>t. hd t = TERMINATOR) (toks (string u))"

definition label_head :: "node \<Rightarrow> string list" where
  "label_head n = take 1 (toks (string (node_string n)))"

text \<open>
  What every insertion keeps, for a node whose label starts \<open>d\<close> tokens below the root:
  the table of each label is the one of its text; a label with a terminator token belongs
  to a node with an identity; a node with an identity ends at least \<open>b\<close> tokens below the
  root; every child is filed under the raw text of the first token of its label.
\<close>

fun tree_inv :: "nat \<Rightarrow> nat \<Rightarrow> node \<Rightarrow> bool"
  and children_inv :: "nat \<Rightarrow> nat \<Rightarrow> (string \<times> node) list \<Rightarrow> bool"
where
  "tree_inv b d (Node lbl ident chs) \<longleftrightarrow>
     consistent lbl \<and> (has_term lbl \<longrightarrow> ident \<noteq> None) \<and>
     (ident \<noteq> None \<longrightarrow> b \<le> d + len lbl) \<and> children_inv b (d + len lbl) chs"
| "children_inv b d [] \<longleftrightarrow> True"
| "children_inv b d ((key, child) # rest) \<longleftrightarrow>
     label_head child = [key] \<and> tree_inv b d child \<and> children_inv b d rest"

lemma children_inv_get:
  "children_inv b d chs \<Longrightarrow> dict_get chs k = Some child \<Longrightarrow>
   label_head child = [k] \<and> tree_inv b d child"
  by (induction chs) (auto split: if_splits)

lemma children_inv_set:
  "children_inv b d chs \<Longrightarrow> label_head v = [k] \<Longrightarrow> tree_inv b d v \<Longrightarrow>
   children_inv b d (dict_set chs k v)"
  by (induction chs) auto

lemma no_term_before_last:
  "i < length (toks s) \<Longrightarrow> \<not> list_ex (\<lambda>t. hd t = TERMINATOR) (take i (toks s))"
proof (induction s arbitrary: i rule: toks.induct)
  case 1
  then show ?case by simp
next
  case (2 c cs)
  show ?case
  proof (cases i)
    case 0
    then show ?thesis by simp
  next
    case (Suc i')
    with "2.prems" "2.IH" show ?thesis
      by (auto simp: TERMINATOR_def split: if_splits)
  qed
qed

lemma len_take_toks: "i \<le> length (toks s) \<Longrightarrow> len (URLString_init (concat (take i (toks s)))) = i"
  by (simp add: len_init toks_take)

lemma len_drop_toks: "len (URLString_init (concat (drop i (toks s)))) = length (toks s) - i"
  by (simp add: len_init toks_drop)

lemma split_new_child:
  assumes inv: "tree_inv b d cur" and sp: "sp \<le> 0"
    and bk: "consistent nbs" "toks (string nbs) \<noteq> []"
    and deep: "b \<le> d + len (node_string cur) + len nbs"
    and res: "split cur sp nbs (Some str_id) = Inr cur'"
  shows "tree_inv b d cur' \<and> node_string cur' = node_string cur"
proof -
  obtain lbl ident chs where cur: "cur = Node lbl ident chs" by (cases cur)
  from bk have l0: "0 < len nbs" by (simp add: consistent_len)
  let ?new = "Node nbs (Some str_id) []"
  let ?k = "hd (toks (string nbs))"
  from res sp bk l0 have cur': "cur' = Node lbl ident (dict_set chs ?k ?new)"
    by (auto simp: split_def cur getitem_consistent hd_conv_nth)
  have "label_head ?new = [?k]"
    using bk(2) by (cases "toks (string nbs)") (simp_all add: label_head_def)
  moreover have "tree_inv b (d + len lbl) ?new"
    using bk(1) deep by (simp add: cur)
  ultimately have "children_inv b (d + len lbl) (dict_set chs ?k ?new)"
    using inv by (simp add: cur children_inv_set)
  with inv show ?thesis by (simp add: cur cur')
qed

lemma split_inner:
  assumes inv: "tree_inv b d cur" and i: "0 < i" "i < len (node_string cur)"
    and bk: "consistent nbs" "toks (string nbs) \<noteq> []"
    and deep: "b \<le> d + i + len nbs"
    and res: "split cur (int i) nbs (Some str_id) = Inr cur'"
  shows "tree_inv b d cur' \<and> label_head cur' = label_head cur"
proof -
  obtain lbl ident chs where cur: "cur = Node lbl ident chs" by (cases cur)
  let ?ts = "toks (string lbl)"
  from inv have cl: "consistent lbl" by (simp add: cur)
  with i have il: "i < length ?ts" by (simp add: cur consistent_len)
  let ?front = "URLString_init (concat (take i ?ts))"
  let ?old = "URLString_init (concat (drop i ?ts))"
  let ?old_node = "Node ?old ident chs"
  let ?new = "Node nbs (Some str_id) []"
  let ?ok = "hd (drop i ?ts)"
  let ?nk = "hd (toks (string nbs))"
  from bk have l0: "0 < len nbs" by (simp add: consistent_len)
  have lo: "len ?old = length ?ts - i" by (rule len_drop_toks)
  have lf: "len ?front = i" using il by (simp add: len_take_toks)
  have ko: "getitem ?old 0 = Inr (URLString_init ?ok)"
    using il by (simp add: getitem_consistent lo toks_drop hd_conv_nth)
  have kn: "getitem nbs 0 = Inr (URLString_init ?nk)"
    using bk l0 by (simp add: getitem_consistent hd_conv_nth)
  from res i il cl
  have cur': "cur' = Node ?front None (dict_set (dict_set [] ?ok ?old_node) ?nk ?new)"
    by (auto simp: split_def cur getslice_to getslice_from consistent_len ko kn Let_def)
  have ho: "label_head ?old_node = [?ok]"
    using il by (simp add: label_head_def toks_drop take_Suc hd_drop_conv_nth)
  have hn: "label_head ?new = [?nk]"
    using bk(2) by (cases "toks (string nbs)") (simp_all add: label_head_def)
  have "has_term ?old \<longrightarrow> has_term lbl"
    by (auto simp: has_term_def toks_drop list_ex_iff dest: in_set_dropD)
  with inv il have io: "tree_inv b (d + i) ?old_node"
    by (simp add: cur lo consistent_len cl)
  have inw: "tree_inv b (d + i) ?new"
    using bk(1) deep by simp
  have "children_inv b (d + i) (dict_set [] ?ok ?old_node)"
    using ho io by simp
  then have ch: "children_inv b (d + i) (dict_set (dict_set [] ?ok ?old_node) ?nk ?new)"
    using hn inw by (rule children_inv_set)
  have nt: "\<not> has_term ?front"
    using no_term_before_last [OF il] by (simp add: has_term_def toks_take)
  have hd: "label_head cur' = label_head cur"
    using i(1) il by (simp add: cur cur' label_head_def toks_take take_Suc)
  have "tree_inv b d cur'"
    unfolding cur' using ch nt lf by simp
  then show ?thesis using hd by (rule conjI)
qed

lemma getitem_Inr:
  "consistent u \<Longrightarrow> getitem u k = Inr t \<Longrightarrow> k < len u \<and> t = URLString_init (toks (string u) ! k)"
  by (auto simp: getitem_consistent split: if_splits)

lemma getslice_from_Inr:
  assumes "consistent u" and "getslice u (Some k) None = Inr r"
  shows "k \<le> len u \<and> consistent r \<and> toks (string r) = drop k (toks (string u)) \<and> len r = len u - k"
  using assms by (auto simp: getslice_from toks_drop len_init consistent_len split: if_splits)

lemma tree_inv_label: "tree_inv b d n \<Longrightarrow> consistent (node_string n)"
  by (cases n) simp

lemma tree_inv_children: "tree_inv b d n \<Longrightarrow> children_inv b (d + len (node_string n)) (children n)"
  by (cases n) simp

lemma tree_inv_replace_children:
  "tree_inv b d n \<Longrightarrow> children_inv b (d + len (node_string n)) chs \<Longrightarrow>
   tree_inv b d (Node (node_string n) (identity n) chs)"
  by (cases n) simp

lemma insert_walk_inv:
  "tree_inv b d cur \<Longrightarrow> consistent suffix \<Longrightarrow> b \<le> len suffix \<Longrightarrow> c = d + index \<Longrightarrow>
     insert_loop cur index suffix str_id c = Inr cur' \<Longrightarrow>
     tree_inv b d cur' \<and> label_head cur' = label_head cur"
  "tree_inv b d cur \<Longrightarrow> consistent suffix \<Longrightarrow> b \<le> len suffix \<Longrightarrow> c = d + index \<Longrightarrow>
     insert_cmp cur index suffix str_id c = Inr cur' \<Longrightarrow>
     tree_inv b d cur' \<and> label_head cur' = label_head cur"
proof (induction cur index suffix str_id c and cur index suffix str_id c
       arbitrary: d cur' and d cur' rule: insert_loop_insert_cmp.induct)
  case (1 cur_node index suffix str_id c)
  note inv = "1.prems"(1) and cs = "1.prems"(2) and bl = "1.prems"(3) and cd = "1.prems"(4)
  note res = "1.prems"(5) [unfolded insert_loop.simps [of cur_node index suffix str_id c]]
  show ?case
  proof (cases "c < len suffix")
    case False
    with res inv show ?thesis by simp
  next
    case lt: True
    show ?thesis
    proof (cases "index = len (node_string cur_node)")
      case False
      with res lt have "insert_cmp cur_node index suffix str_id c = Inr cur'" by simp
      from "1.IH"(2) [OF lt False inv cs bl cd this] show ?thesis .
    next
      case at_end: True
      from res lt at_end obtain sc where
        sc: "getitem suffix c = Inr sc" and
        rest: "(case dict_get (children cur_node) (string sc) of
                  None \<Rightarrow> bind_err (getslice suffix (Some c) None) (\<lambda>nbs.
                            split cur_node (- 1) nbs (Some str_id))
                | Some child \<Rightarrow> bind_err (insert_cmp child 0 suffix str_id c) (\<lambda>child'.
                    Inr (Node (node_string cur_node) (identity cur_node)
                           (dict_set (children cur_node) (string sc) child')))) = Inr cur'"
        by (auto simp: bind_err_Inr_iff)
      show ?thesis
      proof (cases "dict_get (children cur_node) (string sc)")
        case None
        with rest obtain nbs where
          sl: "getslice suffix (Some c) None = Inr nbs" and
          sp: "split cur_node (- 1) nbs (Some str_id) = Inr cur'"
          by (auto simp: bind_err_Inr_iff)
        from getslice_from_Inr [OF cs sl] lt cs
        have nb: "consistent nbs" "toks (string nbs) \<noteq> []" "len nbs = len suffix - c"
          by (auto simp: consistent_len)
        have "b \<le> d + len (node_string cur_node) + len nbs"
          using nb(3) bl cd at_end lt by simp
        from split_new_child [OF inv _ nb(1,2) this sp] show ?thesis
          by (simp add: label_head_def)
      next
        case (Some child)
        with rest obtain child' where
          ch: "insert_cmp child 0 suffix str_id c = Inr child'" and
          cur': "cur' = Node (node_string cur_node) (identity cur_node)
                          (dict_set (children cur_node) (string sc) child')"
          by (auto simp: bind_err_Inr_iff)
        let ?d = "d + len (node_string cur_node)"
        from children_inv_get [OF tree_inv_children [OF inv] Some]
        have hd: "label_head child = [string sc]" and ci: "tree_inv b ?d child" by simp_all
        have "c = ?d + 0" using cd at_end by simp
        from "1.IH"(1) [OF lt at_end sc Some ci cs bl this ch]
        have "tree_inv b ?d child'" and "label_head child' = [string sc]"
          using hd by simp_all
        with tree_inv_children [OF inv]
        have "children_inv b ?d (dict_set (children cur_node) (string sc) child')"
          by (simp add: children_inv_set)
        then have "tree_inv b d cur'"
          unfolding cur' by (rule tree_inv_replace_children [OF inv])
        then show ?thesis by (simp add: cur' label_head_def)
      qed
    qed
  qed
next
  case (2 cur_node index suffix str_id c)
  note inv = "2.prems"(1) and cs = "2.prems"(2) and bl = "2.prems"(3) and cd = "2.prems"(4)
  note res = "2.prems"(5) [unfolded insert_cmp.simps [of cur_node index suffix str_id c]]
  from res obtain sc nc where
    sc: "getitem suffix c = Inr sc" and
    nc: "getitem (node_string cur_node) index = Inr nc" and
    rest: "(if \<not> URLString_eq sc (Url nc) then
              bind_err (getslice suffix (Some c) None) (\<lambda>nbs.
              split cur_node (int index) nbs (Some str_id))
            else insert_loop cur_node (index + 1) suffix str_id (c + 1)) = Inr cur'"
    by (auto simp: bind_err_Inr_iff)
  from getitem_Inr [OF cs sc] have lt: "c < len suffix" by simp
  from getitem_Inr [OF tree_inv_label [OF inv] nc] have il: "index < len (node_string cur_node)"
    by simp
  show ?case
  proof (cases "URLString_eq sc (Url nc)")
    case True
    with rest have "insert_loop cur_node (index + 1) suffix str_id (c + 1) = Inr cur'" by simp
    moreover have "c + 1 = d + (index + 1)" using cd by simp
    ultimately show ?thesis
      using "2.IH" [OF sc nc _ inv cs bl] True by simp
  next
    case False
    with rest obtain nbs where
      sl: "getslice suffix (Some c) None = Inr nbs" and
      sp: "split cur_node (int index) nbs (Some str_id) = Inr cur'"
      by (auto simp: bind_err_Inr_iff)
    from getslice_from_Inr [OF cs sl] lt cs
    have nb: "consistent nbs" "toks (string nbs) \<noteq> []" "len nbs = len suffix - c"
      by (auto simp: consistent_len)
    show ?thesis
    proof (cases "index = 0")
      case True
      have "b \<le> d + len (node_string cur_node) + len nbs"
        using nb(3) bl cd lt True by simp
      from split_new_child [OF inv _ nb(1,2) this, of "int index" str_id cur'] sp True
      show ?thesis by (simp add: label_head_def)
    next
      case False
      then have i0: "0 < index" by simp
      have "b \<le> d + index + len nbs"
        using nb(3) bl cd lt by simp
      from split_inner [OF inv i0 il nb(1,2) this sp] show ?thesis .
    qed
  qed
qed

text \<open>
  A raw text whose scan ends at its end: no terminator token, and no percent sign in its
  last two characters that would take a character of what is appended.
\<close>

definition closed_text :: "string \<Rightarrow> bool" where
  "closed_text s \<longleftrightarrow>
     list_all (\<lambda>t. hd t \<noteq> TERMINATOR \<and> (hd t = CHR ''%'' \<longrightarrow> length t = 3)) (toks s)"

text \<open>A sequence of calls of \<open>insert\<close>, each on the URLString of a raw text.\<close>

fun insert_all :: "URLSuffixTree \<Rightarrow> (string \<times> nat \<times> nat) list \<Rightarrow> error + URLSuffixTree" where
  "insert_all t [] = Inr t"
| "insert_all t ((raw, str_id) # ops) =
     bind_err (insert t (URLString_init raw) str_id) (\<lambda>t'. insert_all t' ops)"

text \<open>Every node with an identity ends at least \<open>b\<close> tokens below the root.\<close>

fun ids_deep :: "nat \<Rightarrow> nat \<Rightarrow> node \<Rightarrow> bool" where
  "ids_deep b d (Node lbl ident chs) \<longleftrightarrow>
     (ident \<noteq> None \<longrightarrow> b \<le> d + len lbl) \<and>
     list_all (\<lambda>kc. ids_deep b (d + len lbl) (snd kc)) chs"

text \<open>
  Every child whose label begins with the terminator has an identity, in the whole tree.
\<close>

definition starts_with_term :: "node \<Rightarrow> bool" where
  "starts_with_term n \<longleftrightarrow>
     (case string (node_string n) of [] \<Rightarrow> False | c # cs \<Rightarrow> c = TERMINATOR)"

fun term_children_identified :: "node \<Rightarrow> bool" where
  "term_children_identified (Node lbl ident chs) \<longleftrightarrow>
     list_all (\<lambda>kc. (starts_with_term (snd kc) \<longrightarrow> identity (snd kc) \<noteq> None) \<and>
                     term_children_identified (snd kc)) chs"

lemma len_add_any: "consistent s \<Longrightarrow> len s \<le> len (URLString_add s v)"
  by (cases v) (simp_all add: consistent_len len_init toks_append_length)

lemma toks_append_closed: "closed_text a \<Longrightarrow> toks (a @ b) = toks a @ toks b"
proof (induction a rule: toks.induct)
  case 1
  then show ?case by simp
next
  case (2 c cs)
  show ?case
  proof (cases "c = CHR ''%''")
    case True
    with "2.prems" have "2 \<le> length cs" and "closed_text (drop 2 cs)"
      by (auto simp: closed_text_def)
    with True "2.IH"(1) show ?thesis by simp
  next
    case False
    with "2.prems" have "c \<noteq> TERMINATOR" and "closed_text cs"
      by (auto simp: closed_text_def split: if_splits)
    with False "2.IH"(2) show ?thesis by simp
  qed
qed

lemma closed_text_drop: "closed_text s \<Longrightarrow> closed_text (concat (drop k (toks s)))"
  by (auto simp: closed_text_def toks_drop list_all_iff dest: in_set_dropD)

lemma toks_term: "toks (TERMINATOR # x) = [TERMINATOR # x]"
  by (simp add: TERMINATOR_def)

lemma toks_hd: "\<exists>t ts. toks (c # cs) = t # ts \<and> hd t = c"
  by simp

lemma len_suffix_closed:
  "closed_text (string s) \<Longrightarrow> consistent s \<Longrightarrow>
   len (URLString_add s (Str (TERMINATOR # x))) = len s + 1"
  by (simp add: len_init consistent_len toks_append_closed toks_term del: toks.simps)

lemma root_inv_init: "tree_inv b 0 (root (URLSuffixTree_init m))"
  by (simp add: URLSuffixTree_init_def EMPTY_URL_STRING_def has_term_def)

lemma insert_inv:
  "tree_inv b 0 (root t) \<Longrightarrow> consistent s \<Longrightarrow>
   b \<le> min_suffix_len t + (if closed_text (string s) then 1 else 0) \<Longrightarrow>
   insert t s str_id = Inr t' \<Longrightarrow>
   tree_inv b 0 (root t') \<and> min_suffix_len t' = min_suffix_len t"
proof (induction t s str_id rule: insert.induct)
  case (1 self s str_id)
  note res = "1.prems"(4) [unfolded insert.simps [of self s str_id]]
  show ?case
  proof (cases "len s < min_suffix_len self")
    case True
    with res "1.prems"(1) show ?thesis by simp
  next
    case False
    let ?suffix = "URLString_add s (Str (TERMINATOR # str_nat (fst str_id)))"
    from res False obtain root' rest where
      walk: "insert_loop (root self) 0 ?suffix str_id 0 = Inr root'" and
      sl: "getslice s (Some 1) None = Inr rest" and
      rec: "insert (self\<lparr>root := root'\<rparr>) rest (fst str_id, snd str_id + 1) = Inr t'"
      by (auto simp: bind_err_Inr_iff Let_def)
    have cs: "consistent ?suffix" by simp
    have bl: "b \<le> len ?suffix"
    proof (cases "closed_text (string s)")
      case True
      then have "len ?suffix = len s + 1"
        using "1.prems"(2) by (rule len_suffix_closed)
      with "1.prems"(3) False True show ?thesis by simp
    next
      case nc: False
      with "1.prems"(3) False have "b \<le> len s" by simp
      then show ?thesis
        using len_add_any [OF "1.prems"(2), of "Str (TERMINATOR # str_nat (fst str_id))"]
        by (rule order_trans)
    qed
    from insert_walk_inv(1) [OF "1.prems"(1) cs bl _ walk]
    have r': "tree_inv b 0 (root (self\<lparr>root := root'\<rparr>))" by simp
    from getslice_from_Inr [OF "1.prems"(2) sl]
    have cr: "consistent rest" and tr: "toks (string rest) = drop 1 (toks (string s))" by simp_all
    have "string rest = concat (drop 1 (toks (string s)))"
      using tr concat_toks [of "string rest"] by simp
    then have "closed_text (string s) \<longrightarrow> closed_text (string rest)"
      by (simp add: closed_text_drop)
    with "1.prems"(3)
    have b': "b \<le> min_suffix_len (self\<lparr>root := root'\<rparr>) + (if closed_text (string rest) then 1 else 0)"
      by (auto split: if_splits)
    from "1.IH" [OF False refl walk sl r' cr b' rec] show ?thesis by simp
  qed
qed

lemma insert_all_inv:
  "tree_inv b 0 (root t) \<Longrightarrow>
   b \<le> min_suffix_len t + (if list_all (\<lambda>op. closed_text (fst op)) ops then 1 else 0) \<Longrightarrow>
   insert_all t ops = Inr t' \<Longrightarrow> tree_inv b 0 (root t')"
proof (induction ops arbitrary: t)
  case Nil
  then show ?case by simp
next
  case (Cons op ops)
  obtain raw str_id where op: "op = (raw, str_id)" by (cases op)
  from Cons.prems(3) obtain t1 where
    i: "insert t (URLString_init raw) str_id = Inr t1" and r: "insert_all t1 ops = Inr t'"
    by (auto simp: op bind_err_Inr_iff)
  have "b \<le> min_suffix_len t + (if closed_text (string (URLString_init raw)) then 1 else 0)"
    using Cons.prems(2) by (auto simp: op split: if_splits)
  from insert_inv [OF Cons.prems(1) _ this i]
  have t1: "tree_inv b 0 (root t1)" and m: "min_suffix_len t1 = min_suffix_len t" by simp_all
  have "b \<le> min_suffix_len t1 + (if list_all (\<lambda>op. closed_text (fst op)) ops then 1 else 0)"
    using Cons.prems(2) m by (auto simp: op split: if_splits)
  from Cons.IH [OF t1 this r] show ?case .
qed

lemma tree_inv_ids_deep:
  "tree_inv b d n \<Longrightarrow> ids_deep b d n"
  "children_inv b d chs \<Longrightarrow> list_all (\<lambda>kc. ids_deep b d (snd kc)) chs"
  by (induction b d n and b d chs rule: tree_inv_children_inv.induct) auto

lemma label_head_term:
  assumes "label_head n = [k]" and "consistent (node_string n)"
  shows "starts_with_term n \<longleftrightarrow> k \<noteq> [] \<and> hd k = TERMINATOR"
    and "k \<noteq> [] \<and> hd k = TERMINATOR \<Longrightarrow> has_term (node_string n)"
proof -
  obtain c cs where s: "string (node_string n) = c # cs"
    using assms(1) by (cases "string (node_string n)") (auto simp: label_head_def)
  from toks_hd [of c cs] obtain t ts where t: "toks (c # cs) = t # ts" "hd t = c"
    by blast
  with assms(1) s have kt: "k = t" by (simp add: label_head_def)
  have "t \<noteq> []" using toks_nonempty [of t "c # cs"] t(1) by simp
  with kt t(2) have k: "k \<noteq> [] \<and> hd k = c" by simp
  then show "starts_with_term n \<longleftrightarrow> k \<noteq> [] \<and> hd k = TERMINATOR"
    by (simp add: starts_with_term_def s)
  assume "k \<noteq> [] \<and> hd k = TERMINATOR"
  with k t show "has_term (node_string n)"
    by (simp add: has_term_def s)
qed

lemma tree_inv_term_children:
  "tree_inv b d n \<Longrightarrow> term_children_identified n"
  "children_inv b d chs \<Longrightarrow>
     list_all (\<lambda>kc. (starts_with_term (snd kc) \<longrightarrow> identity (snd kc) \<noteq> None) \<and>
                     term_children_identified (snd kc)) chs"
proof (induction b d n and b d chs rule: tree_inv_children_inv.induct)
  case (1 b d lbl ident chs)
  then show ?case by simp
next
  case (2 b d)
  then show ?case by simp
next
  case (3 b d key child rest)
  from "3.prems" have h: "label_head child = [key]" and ti: "tree_inv b d child"
    and r: "children_inv b d rest" by simp_all
  have "starts_with_term child \<longrightarrow> identity child \<noteq> None"
    using label_head_term [OF h tree_inv_label [OF ti]] ti by (cases child) auto
  with "3.IH" ti r show ?case by simp
qed

lemma term_keys_hd:
  "term_keys chs = Inr ks \<Longrightarrow> k \<in> set ks \<Longrightarrow> k \<noteq> [] \<and> hd k = TERMINATOR"
proof (induction chs arbitrary: ks)
  case Nil
  then show ?case by simp
next
  case (Cons kc chs)
  obtain key child where kc: "kc = (key, child)" by (cases kc)
  from Cons.prems(1) obtain c cs ks' where
    key: "key = c # cs" and ks': "term_keys chs = Inr ks'" and
    ks: "ks = (if c = TERMINATOR then key # ks' else ks')"
    by (auto simp: kc bind_err_Inr_iff split: list.splits)
  show ?case
  proof (cases "k \<in> set ks'")
    case True
    with Cons.IH [OF ks'] show ?thesis by simp
  next
    case False
    with Cons.prems(2) ks key show ?thesis by (auto split: if_splits)
  qed
qed

lemma push_matches_no_TypeError:
  "\<forall>t \<in> set ts. \<forall>child. dict_get chs t = Some child \<longrightarrow> identity child \<noteq> None \<Longrightarrow>
   push_matches chs ts s ms n \<noteq> Inl TypeError"
proof (induction ts arbitrary: ms n)
  case Nil
  then show ?case by simp
next
  case (Cons t ts)
  from Cons.prems
  have rest: "\<forall>t \<in> set ts. \<forall>child. dict_get chs t = Some child \<longrightarrow> identity child \<noteq> None"
    by simp
  show ?case
  proof (cases "dict_get chs t")
    case None
    then show ?thesis by simp
  next
    case (Some child)
    with Cons.prems obtain ident where "identity child = Some ident" by auto
    with Some Cons.IH [OF rest] show ?thesis by simp
  qed
qed

lemma pop_matches_no_TypeError: "pop_matches ms n \<noteq> Inl TypeError"
  by (induction ms n rule: pop_matches.induct) auto

lemma children_inv_term_identity:
  assumes "children_inv b d chs" and "dict_get chs t = Some child"
    and "t \<noteq> [] \<and> hd t = TERMINATOR"
  shows "identity child \<noteq> None"
proof -
  from children_inv_get [OF assms(1,2)]
  have h: "label_head child = [t]" and ti: "tree_inv b d child" by simp_all
  from label_head_term(2) [OF h tree_inv_label [OF ti] assms(3)] ti
  show ?thesis by (cases child) auto
qed

lemma dfs_join_no_TypeError:
  "tree_inv b d node \<Longrightarrow> dfs_join node s ms ja \<noteq> Inl TypeError"
  "children_inv b d chs \<Longrightarrow> dfs_children chs s ms ja \<noteq> Inl TypeError"
proof (induction node s ms ja and chs s ms ja arbitrary: d and d
       rule: dfs_join_dfs_children.induct)
  case (1 nstr ident chs s match_stack join_array)
  from "1.prems" have ci: "children_inv b (d + len nstr) chs" by simp
  show ?case
  proof (cases "case ident of None \<Rightarrow> False | Some i \<Rightarrow> snd i = 0")
    case True
    then show ?thesis by (auto simp: set_err_def)
  next
    case False
    have pm: "push_matches chs ks s match_stack 0 \<noteq> Inl TypeError"
      if "term_keys chs = Inr ks" for ks
    proof (rule push_matches_no_TypeError, intro ballI allI impI)
      fix t child assume t: "t \<in> set ks" and g: "dict_get chs t = Some child"
      from term_keys_hd [OF that t] have "t \<noteq> [] \<and> hd t = TERMINATOR" .
      with ci g show "identity child \<noteq> None" by (rule children_inv_term_identity)
    qed
    have tk: "term_keys chs \<noteq> Inl TypeError"
      by (induction chs) (auto simp: bind_err_Inl_iff split: list.splits)
    from False tk pm "1.IH" [OF False _ _ _ ci] show ?thesis
      by (auto simp: bind_err_Inl_iff pop_matches_no_TypeError split: if_splits)
  qed
next
  case (2 s match_stack join_array)
  then show ?case by simp
next
  case (3 key child d' s match_stack join_array)
  from "3.prems" have "tree_inv b d child" and "children_inv b d d'" by simp_all
  with "3.IH" show ?case by (auto simp: bind_err_Inl_iff)
qed

section \<open>The trace of a stitch attempt ends\<close>

text \<open>
  The fragments the trace has visited, the last one first: each is the fragment whose
  entry of \<open>stitchings\<close> is its predecessor in the list, the first one visited has the
  entry \<open>-1\<close>, and none occurs twice.
\<close>

fun chain :: "int list \<Rightarrow> nat list \<Rightarrow> int \<Rightarrow> bool" where
  "chain sts [] cur \<longleftrightarrow> cur = - 1"
| "chain sts (v # rest) cur \<longleftrightarrow>
     cur = int v \<and> v < length sts \<and> v \<notin> set rest \<and> chain sts rest (sts ! v)"

lemma index_of_Some:
  "index_of xs v = Some i \<Longrightarrow> i < length xs \<and> xs ! i = v"
  by (induction xs arbitrary: i) (auto split: if_splits)

lemma chain_values:
  "chain sts V cur \<Longrightarrow>
   (cur = - 1 \<or> cur \<in> int ` set V) \<and> (\<forall>w \<in> set V. sts ! w = - 1 \<or> sts ! w \<in> int ` set V)"
  by (induction V arbitrary: cur) fastforce+

lemma chain_distinct: "chain sts V cur \<Longrightarrow> distinct V \<and> set V \<subseteq> {..<length sts}"
  by (induction V arbitrary: cur) auto

lemma chain_length: "chain sts V cur \<Longrightarrow> length V \<le> length sts"
proof -
  assume "chain sts V cur"
  then have d: "distinct V" and s: "set V \<subseteq> {..<length sts}"
    by (simp_all add: chain_distinct)
  from d have "length V = card (set V)" by (simp add: distinct_card)
  also from s have "\<dots> \<le> card {..<length sts}" by (intro card_mono) simp_all
  finally show ?thesis by simp
qed

lemma chain_step:
  assumes "chain sts V cur" and "index_of sts cur = Some c"
  shows "chain sts (c # V) (int c)"
proof -
  from index_of_Some [OF assms(2)] have c: "c < length sts" "sts ! c = cur" by simp_all
  have "c \<notin> set V"
  proof (cases V)
    case Nil
    then show ?thesis by simp
  next
    case (Cons v rest)
    with assms(1) have cur: "cur = int v" and v: "v \<notin> set rest" and r: "chain sts rest (sts ! v)"
      by simp_all
    from chain_values [OF r]
    have "\<forall>w \<in> set (v # rest). sts ! w = - 1 \<or> sts ! w \<in> int ` set rest" by auto
    with c(2) cur v Cons show ?thesis by auto
  qed
  with assms(1) c show ?thesis by simp
qed

lemma join_not_Diverged: "join a b k \<noteq> Inl Diverged"
  by (auto simp: join_def getslice_def slice_bound_def nth_err_def bind_err_Inl_iff
           split: option.splits)

lemma trace_fuel_enough:
  "chain sts V cur \<Longrightarrow> length sts < fuel + length V \<Longrightarrow>
   trace fuel cur sts ovs sa heap \<noteq> Inl Diverged"
proof (induction fuel arbitrary: V cur sa heap)
  case 0
  with chain_length [OF "0.prems"(1)] show ?case by simp
next
  case (Suc fuel)
  show ?case
  proof (cases "index_of sts cur")
    case None
    then show ?thesis by simp
  next
    case (Some c)
    from chain_step [OF Suc.prems(1) Some] have ch: "chain sts (c # V) (int c)" .
    have "length sts < fuel + length (c # V)" using Suc.prems(2) by simp
    from Suc.IH [OF ch this]
    have "trace fuel (int c) sts ovs sa' heap' \<noteq> Inl Diverged" for sa' heap' .
    with Some show ?thesis
      by (auto simp: bind_err_Inl_iff nth_err_def join_not_Diverged split: option.splits)
  qed
qed

lemma stitch_attempt_not_Diverged: "stitch_attempt unquote st fragments \<noteq> Inl Diverged"
proof -
  have "chain (stitchings st) [] (- 1)" by simp
  from trace_fuel_enough [OF this, of "length (stitchings st) + 1"]
  show ?thesis
    by (auto simp: stitch_attempt_def bind_err_Inl_iff nth_err_def split: if_splits)
qed

lemma stitch_not_Diverged:
  "stitch unquote ja index search st fragments \<noteq> Inl Diverged"
  "stitch_loop unquote ja index search st fragments k cands i \<noteq> Inl Diverged"
proof (induction unquote ja index search st fragments and unquote ja index search st fragments k cands i
       rule: stitch_stitch_loop.induct)
  case (1 unquote join_array index search st fragments)
  show ?case
    using "1.IH"
    by (subst stitch.simps)
       (auto simp: bind_err_Inl_iff nth_err_def set_err_def stitch_attempt_not_Diverged
             split: option.splits if_splits)
next
  case (2 unquote join_array index search st fragments k cands i)
  show ?case
    using "2.IH"
    by (subst stitch_loop.simps)
       (auto simp: bind_err_Inl_iff nth_err_def set_err_def Let_def split: if_splits)
qed

lemma getitem_not_Diverged: "getitem u k \<noteq> Inl Diverged"
  by (auto simp: getitem_def nth_err_def bind_err_Inl_iff)

lemma getslice_not_Diverged: "getslice u a b \<noteq> Inl Diverged"
  by (auto simp: getslice_def slice_bound_def nth_err_def bind_err_Inl_iff split: option.splits)

lemma split_not_Diverged: "split n sp nbs ident \<noteq> Inl Diverged"
  by (auto simp: split_def bind_err_Inl_iff getitem_not_Diverged getslice_not_Diverged Let_def)

lemma insert_loop_not_Diverged:
  "insert_loop cur index suffix str_id c \<noteq> Inl Diverged"
  "insert_cmp cur index suffix str_id c \<noteq> Inl Diverged"
proof (induction cur index suffix str_id c and cur index suffix str_id c
       rule: insert_loop_insert_cmp.induct)
  case (1 cur_node index suffix str_id c)
  show ?case
    using "1.IH"
    by (subst insert_loop.simps)
       (auto simp: bind_err_Inl_iff getitem_not_Diverged getslice_not_Diverged split_not_Diverged
             split: option.splits)
next
  case (2 cur_node index suffix str_id c)
  show ?case
    using "2.IH"
    by (subst insert_cmp.simps)
       (auto simp: bind_err_Inl_iff getitem_not_Diverged getslice_not_Diverged split_not_Diverged)
qed

lemma insert_not_Diverged: "insert t s str_id \<noteq> Inl Diverged"
proof (induction t s str_id rule: insert.induct)
  case (1 self s str_id)
  show ?case
    using "1.IH"
    by (subst insert.simps)
       (auto simp: bind_err_Inl_iff insert_loop_not_Diverged getslice_not_Diverged Let_def)
qed

lemma build_not_Diverged: "build lines i fragments t \<noteq> Inl Diverged"
  by (induction lines i fragments t rule: build.induct)
     (auto simp: bind_err_Inl_iff nth_err_def insert_not_Diverged Let_def)

lemma term_keys_not_Diverged: "term_keys chs \<noteq> Inl Diverged"
  by (induction chs) (auto simp: bind_err_Inl_iff split: list.splits)

lemma push_matches_not_Diverged: "push_matches chs ts s ms n \<noteq> Inl Diverged"
  by (induction ts arbitrary: ms n) (auto split: option.splits)

lemma pop_matches_not_Diverged: "pop_matches ms n \<noteq> Inl Diverged"
  by (induction ms n rule: pop_matches.induct) auto

lemma dfs_join_not_Diverged:
  "dfs_join node s ms ja \<noteq> Inl Diverged"
  "dfs_children chs s ms ja \<noteq> Inl Diverged"
proof (induction node s ms ja and chs s ms ja rule: dfs_join_dfs_children.induct)
  case (1 nstr ident chs s match_stack join_array)
  then show ?case
    by (auto simp: bind_err_Inl_iff set_err_def term_keys_not_Diverged push_matches_not_Diverged
                   pop_matches_not_Diverged split: if_splits)
next
  case (2 s match_stack join_array)
  then show ?case by simp
next
  case (3 key child d s match_stack join_array)
  then show ?case by (auto simp: bind_err_Inl_iff)
qed

lemma entry_lens_not_Diverged: "entry_lens ja \<noteq> Inl Diverged"
proof (induction ja)
  case Nil
  then show ?case by simp
next
  case (Cons e es)
  then show ?case by (cases e) (auto simp: bind_err_Inl_iff)
qed

lemma forced_heads_not_Diverged:
  "forced_heads unquote ja lens fragments j result \<noteq> Inl Diverged"
proof (induction unquote ja lens fragments j result rule: forced_heads.induct)
  case (1 unquote join_array lens fragments j result)
  show ?case
    using "1.IH"
    by (subst forced_heads.simps)
       (auto simp: bind_err_Inl_iff stitch_not_Diverged Let_def split: if_splits)
qed

text \<open>
  The bound on the iterations of the trace is never reached: \<open>reconstruct\<close> returns a
  value or raises one of the exceptions of the program.
\<close>

lemma reconstruct_not_Diverged: "reconstruct unquote lines \<noteq> Inl Diverged"
  by (auto simp: reconstruct_def bind_err_Inl_iff build_not_Diverged dfs_join_not_Diverged
                 entry_lens_not_Diverged stitch_not_Diverged forced_heads_not_Diverged
           split: option.splits if_splits)

section \<open>The forced heads\<close>

text \<open>The attempt of the loop over the forced heads for fragment \<open>j\<close>.\<close>

definition forced_attempt ::
  "(string \<Rightarrow> string) \<Rightarrow> join_entry list \<Rightarrow> nat list \<Rightarrow> URLString list \<Rightarrow> nat
     \<Rightarrow> error + (string option \<times> search_state)"
where
  "forced_attempt unquote ja lens fragments j =
     stitch unquote (ja[j := Some []]) 0 (search_order (lens[j := 0]))
       (initial_state (length fragments)) fragments"

lemma stitch_loop_truthy_or_None:
  "stitch_loop unquote ja index search st fragments k cands i = Inr (r, st') \<Longrightarrow>
     truthy r \<or> r = None"
proof (induction "length cands - i" arbitrary: i st)
  case 0
  then show ?case
    by (simp add: stitch_loop.simps [of unquote ja index search st fragments k cands i])
next
  case (Suc n)
  from Suc.hyps(2) have lt: "i < length cands" and n: "n = length cands - (i + 1)" by simp_all
  have IH: "truthy r \<or> r = None"
    if "stitch_loop unquote ja index search st1 fragments k cands (i + 1) = Inr (r, st')" for st1
    using Suc.hyps(1) [OF n that] .
  from Suc.prems lt IH show ?case
    by (subst (asm) stitch_loop.simps)
       (auto simp: bind_err_Inr_iff Let_def split: if_splits prod.splits)
qed

lemma stitch_truthy_or_None:
  "index \<noteq> length ja \<Longrightarrow> stitch unquote ja index search st fragments = Inr (r, st') \<Longrightarrow>
     truthy r \<or> r = None"
  by (subst (asm) stitch.simps)
     (auto simp: bind_err_Inr_iff split: if_splits prod.splits option.splits
           dest: stitch_loop_truthy_or_None)

lemma forced_heads_first_success:
  assumes "j \<le> k" and "k < length ja"
    and "\<forall>i. j \<le> i \<and> i < k \<longrightarrow>
           (\<exists>r st. forced_attempt unquote ja lens fragments i = Inr (r, st) \<and> \<not> truthy r)"
    and "forced_attempt unquote ja lens fragments k = Inr (r, st)" and "truthy r"
  shows "forced_heads unquote ja lens fragments j res = Inr (Some r)"
  using assms
proof (induction "k - j" arbitrary: j res)
  case 0
  then have "j = k" by simp
  with "0.prems" show ?case
    by (simp add: forced_heads.simps [of unquote ja lens fragments k] forced_attempt_def)
next
  case (Suc n)
  then have lt: "j < k" by simp
  with Suc.prems(3) obtain r' st' where
    a: "forced_attempt unquote ja lens fragments j = Inr (r', st')" "\<not> truthy r'" by blast
  have "forced_heads unquote ja lens fragments (j + 1) (Some r') = Inr (Some r)"
    using Suc.hyps(2) lt Suc.prems by (intro Suc.hyps(1)) auto
  with a lt Suc.prems(2) show ?case
    by (simp add: forced_heads.simps [of unquote ja lens fragments j] forced_attempt_def)
qed

lemma forced_heads_all_fail:
  assumes "j < length ja"
    and "\<forall>i. j \<le> i \<and> i < length ja \<longrightarrow>
           (\<exists>r st. forced_attempt unquote ja lens fragments i = Inr (r, st) \<and> \<not> truthy r)"
  shows "forced_heads unquote ja lens fragments j res = Inr (Some None)"
  using assms
proof (induction "length ja - j" arbitrary: j res)
  case 0
  then show ?case by simp
next
  case (Suc n)
  from Suc.prems obtain r' st' where
    a: "forced_attempt unquote ja lens fragments j = Inr (r', st')" "\<not> truthy r'" by blast
  have "length (ja[j := Some []]) \<noteq> 0" using Suc.prems(1) by auto
  with a stitch_truthy_or_None [of 0 "ja[j := Some []]" unquote _ _ fragments r' st']
  have r': "r' = None" by (auto simp: forced_attempt_def)
  show ?case
  proof (cases "j + 1 < length ja")
    case True
    have "forced_heads unquote ja lens fragments (j + 1) (Some r') = Inr (Some None)"
      using Suc.hyps(2) True Suc.prems(2) by (intro Suc.hyps(1)) auto
    with a Suc.prems(1) show ?thesis
      by (simp add: forced_heads.simps [of unquote ja lens fragments j] forced_attempt_def)
  next
    case False
    then have "forced_heads unquote ja lens fragments (Suc j) (Some r') = Inr (Some r')"
      by (simp add: forced_heads.simps [of unquote ja lens fragments "Suc j"])
    with a r' Suc.prems(1) show ?thesis
      by (simp add: forced_heads.simps [of unquote ja lens fragments j] forced_attempt_def)
  qed
qed

text \<open>
  Step 3 of \<open>reconstruct\<close> for at least one fragment, once the tree is built and
  traversed: with an empty candidate list there is one search and no forced head; without
  one, the result is the result of the first forced head whose search succeeds, in the
  order of the fragments, and \<open>None\<close> if none does.
\<close>

lemma reconstruct_step_3:
  assumes "build lines 0 [] (URLSuffixTree_init MIN_OVERLAP) = Inr (fragments, t)"
    and "dfs_join (root t) (node_string (root t)) [] (replicate (length fragments) None)
           = Inr (ms, ja)"
    and "entry_lens ja = Inr lens"
  shows "0 \<in> set lens \<Longrightarrow>
           reconstruct unquote lines =
             bind_err (stitch unquote ja 0 (search_order lens)
                         (initial_state (length fragments)) fragments) (\<lambda>(r, st). Inr r)"
    and "0 \<notin> set lens \<Longrightarrow> k < length ja \<Longrightarrow>
           \<forall>i. 0 \<le> i \<and> i < k \<longrightarrow>
             (\<exists>r st. forced_attempt unquote ja lens fragments i = Inr (r, st) \<and> \<not> truthy r) \<Longrightarrow>
           forced_attempt unquote ja lens fragments k = Inr (r, st) \<Longrightarrow> truthy r \<Longrightarrow>
           reconstruct unquote lines = Inr r"
    and "0 \<notin> set lens \<Longrightarrow> 0 < length ja \<Longrightarrow>
           \<forall>i. 0 \<le> i \<and> i < length ja \<longrightarrow>
             (\<exists>r st. forced_attempt unquote ja lens fragments i = Inr (r, st) \<and> \<not> truthy r) \<Longrightarrow>
           reconstruct unquote lines = Inr None"
proof -
  have f: "filter (\<lambda>n. n = 0) lens \<noteq> [] \<longleftrightarrow> 0 \<in> set lens"
    by (auto simp: filter_empty_conv)
  show "reconstruct unquote lines =
          bind_err (stitch unquote ja 0 (search_order lens)
                      (initial_state (length fragments)) fragments) (\<lambda>(r, st). Inr r)"
    if "0 \<in> set lens"
    using that assms f by (simp add: reconstruct_def)
  show "reconstruct unquote lines = Inr r"
    if "0 \<notin> set lens" "k < length ja"
      "\<forall>i. 0 \<le> i \<and> i < k \<longrightarrow>
         (\<exists>r st. forced_attempt unquote ja lens fragments i = Inr (r, st) \<and> \<not> truthy r)"
      "forced_attempt unquote ja lens fragments k = Inr (r, st)" "truthy r"
  proof -
    have "forced_heads unquote ja lens fragments 0 None = Inr (Some r)"
      using that(2-5) by (intro forced_heads_first_success [where k = k and st = st]) auto
    with that(1) assms f show ?thesis by (simp add: reconstruct_def)
  qed
  show "reconstruct unquote lines = Inr None"
    if "0 \<notin> set lens" "0 < length ja"
      "\<forall>i. 0 \<le> i \<and> i < length ja \<longrightarrow>
         (\<exists>r st. forced_attempt unquote ja lens fragments i = Inr (r, st) \<and> \<not> truthy r)"
  proof -
    have "forced_heads unquote ja lens fragments 0 None = Inr (Some None)"
      using that(2,3) by (rule forced_heads_all_fail)
    with that(1) assms f show ?thesis by (simp add: reconstruct_def)
  qed
qed

section \<open>A round trip\<close>

text \<open>
  The round trip on one text: \<open>ABCDEFGHIJKLM\<close> split into three fragments that share
  three tokens each, in each of the six orders of the input.
\<close>

lemma reconstruct_three_fragments_any_order:
  "reconstruct unquote [''ABCDEF'', ''DEFGHI'', ''GHIJKLM''] = Inr (Some ''ABCDEFGHIJKLM'')"
  "reconstruct unquote [''ABCDEF'', ''GHIJKLM'', ''DEFGHI''] = Inr (Some ''ABCDEFGHIJKLM'')"
  "reconstruct unquote [''DEFGHI'', ''ABCDEF'', ''GHIJKLM''] = Inr (Some ''ABCDEFGHIJKLM'')"
  "reconstruct unquote [''DEFGHI'', ''GHIJKLM'', ''ABCDEF''] = Inr (Some ''ABCDEFGHIJKLM'')"
  "reconstruct unquote [''GHIJKLM'', ''ABCDEF'', ''DEFGHI''] = Inr (Some ''ABCDEFGHIJKLM'')"
  "reconstruct unquote [''GHIJKLM'', ''DEFGHI'', ''ABCDEF''] = Inr (Some ''ABCDEFGHIJKLM'')"
  by code_simp+

section \<open>Claims\<close>

text \<open>
  C1, at a failing input: the source text \<open>AB\<close> in one fragment. The fragment is below
  the minimum overlap and never enters the tree, its entry of \<open>join_array\<close> stays the
  integer 0, and \<open>len(x)\<close> raises TypeError: the text is not returned. A fragment that
  ends in a space loses it to \<open>rstrip\<close>: \<open>ABC DEF\<close> split into \<open>ABC \<close> and
  \<open>BC DEF\<close>, which share three tokens, gives \<open>None\<close>.
\<close>

theorem reconstruct_short_text_raises:
  "reconstruct (\<lambda>s. s) [''AB''] = Inl TypeError \<and>
   reconstruct (\<lambda>s. s) [''ABC '', ''BC DEF''] = Inr None"
  by code_simp

text \<open>
  C2, at a failing input: two fragments with the same text \<open>ABC\<close>, both assigned to the
  head of the chain. The trace starts at fragment 0 and finds no successor: fragment 1
  is never visited and still refers to its own object. The attempt is reported as a
  success, because \<open>count\<close> compares the texts.
\<close>

theorem stitch_attempt_accepts_unvisited_fragment:
  "trace 3 (- 1) [- 1, - 1] [0, 0] [0, 1] [URLString_init ''ABC'', URLString_init ''ABC'']
     = Inr ([0, 1], [URLString_init ''ABC'', URLString_init ''ABC'']) \<and>
   stitch_attempt (\<lambda>s. s) \<lparr>seen_array = [0, 0], stitchings = [- 1, - 1], overlaps = [0, 0]\<rparr>
     [URLString_init ''ABC'', URLString_init ''ABC''] = Inr (Some ''ABC'') \<and>
   reconstruct (\<lambda>s. s) [''ABC'', ''ABC''] = Inr (Some ''ABC'')"
  by code_simp

text \<open>
  C3, as the specification states it: with minimum overlap 3, the fragments
  \<open>ABCDEF\<close>, \<open>CDEFGH\<close>, \<open>GHIJKL\<close> are reconstructed to \<open>ABCDEFGHIJKL\<close>. The code
  does not: \<open>CDEFGH\<close> and \<open>GHIJKL\<close> share the two tokens \<open>GH\<close> only, the suffix
  \<open>GH\<close> is below the minimum and never enters the tree, and the result is \<open>None\<close>.
\<close>

theorem reconstruct_scenario_1_fails:
  "reconstruct (\<lambda>s. s) [''ABCDEF'', ''CDEFGH'', ''GHIJKL''] \<noteq> Inr (Some ''ABCDEFGHIJKL'')"
  by code_simp

text \<open>
  C3, amended: with minimum overlap 3 the reconstruction of \<open>ABCDEF\<close>, \<open>CDEFGH\<close>,
  \<open>GHIJKL\<close> returns \<open>None\<close>; with the third fragment starting one token earlier
  (\<open>FGHIJKL\<close>, so that the last two fragments share the three tokens \<open>FGH\<close>) it
  returns \<open>ABCDEFGHIJKL\<close>.
\<close>

theorem reconstruct_scenario_1_amended:
  "reconstruct unquote [''ABCDEF'', ''CDEFGH'', ''GHIJKL''] = Inr None \<and>
   reconstruct unquote [''ABCDEF'', ''CDEFGH'', ''FGHIJKL''] = Inr (Some ''ABCDEFGHIJKL'')"
  by code_simp

text \<open>
  C4, as the specification states it: a percent sign that is not followed by two
  hexadecimal digits makes the construction of the URLString fail. The constructor has no
  failure: \<open>AB%4\<close> (the text ends after one character) and \<open>AB%zz\<close> (no hexadecimal
  digits) are tokenized like any other text, the percent sign taking what follows it.
\<close>

theorem malformed_escape_is_tokenized:
  "URLString_init ''AB%4'' = \<lparr>string = ''AB%4'', true_positions = [0, 1, 2, 4]\<rparr> \<and>
   URLString_init ''AB%zz'' = \<lparr>string = ''AB%zz'', true_positions = [0, 1, 2, 5]\<rparr>"
  by (simp add: URLString_init_def update_true_positions_def scan_positions.simps TERMINATOR_def)

text \<open>
  C4, amended: the construction never fails and never reads the characters after a
  percent sign. For every raw text it returns the URLString of that text, with a table of
  boundaries that starts at 0, increases strictly and ends at the length of the text, and
  the table is the same when every character other than a percent sign or a terminator is
  replaced by another.
\<close>

theorem construction_never_fails:
  "string (URLString_init s) = s \<and>
   hd (true_positions (URLString_init s)) = 0 \<and>
   last (true_positions (URLString_init s)) = length s \<and>
   sorted_wrt (<) (true_positions (URLString_init s)) \<and>
   true_positions (URLString_init (map mask_char s)) = true_positions (URLString_init s)"
proof -
  have "sorted_wrt (<) (scan_positions s 0 @ [length s])"
    using scan_positions_sorted [of s 0] scan_positions_lt [of _ s 0]
    by (auto simp: sorted_wrt_append)
  then show ?thesis
    by (simp add: true_positions_init scan_positions_hd scan_positions_mask)
qed

text \<open>
  C5: for URLStrings \<open>self\<close> and \<open>t\<close> and a token count \<open>k\<close> with
  \<open>0 \<le> k \<le> len t\<close>, \<open>self.join(t, k)\<close> returns normally and leaves in \<open>self\<close> its
  raw text followed by the raw text of \<open>t\<close> from the \<open>k\<close>-th boundary of \<open>t\<close> on, with
  the table of boundaries recomputed from the new text. The part dropped is the first
  \<open>k\<close> tokens of \<open>t\<close>, the part kept is the other tokens of \<open>t\<close> and has exactly them
  as its tokens, and if every percent sign of both texts starts a whole escape, then so
  does every percent sign of the joined text. A URLString here is one whose table is the
  one of its raw text, as every URLString of the program is.
\<close>

theorem join_drops_whole_tokens:
  assumes "consistent t" and "k \<le> len t"
  shows "\<exists>r. join self t k = Inr r \<and>
           string r = string self @ drop (true_positions t ! k) (string t) \<and>
           true_positions r = scan_positions (string r) 0 @ [length (string r)] \<and>
           drop (true_positions t ! k) (string t) = concat (drop k (tokens t)) \<and>
           take (true_positions t ! k) (string t) = concat (take k (tokens t)) \<and>
           tokens (URLString_init (concat (drop k (tokens t)))) = drop k (tokens t) \<and>
           (whole_escapes (string self) \<and> whole_escapes (string t) \<longrightarrow> whole_escapes (string r))"
proof -
  let ?kept = "concat (drop k (toks (string t)))"
  let ?r = "update_true_positions (self\<lparr>string := string self @ ?kept\<rparr>)"
  have tk: "tokens t = toks (string t)" using assms(1) by (rule tokens_consistent)
  have j: "join self t k = Inr ?r"
    using assms by (simp add: join_def getslice_from)
  have d: "drop (true_positions t ! k) (string t) = ?kept"
    using assms by (rule consistent_drop)
  have tkk: "take (true_positions t ! k) (string t) = concat (take k (toks (string t)))"
    using assms by (rule consistent_take)
  have s: "string ?r = string self @ ?kept" by simp
  have tp: "true_positions ?r = scan_positions (string ?r) 0 @ [length (string ?r)]"
    by (simp add: update_true_positions_def)
  have kt: "tokens (URLString_init ?kept) = drop k (toks (string t))"
    by (simp add: tokens_consistent toks_drop)
  have we: "whole_escapes (string self) \<and> whole_escapes (string t) \<longrightarrow> whole_escapes (string ?r)"
    by (simp add: whole_escapes_append whole_escapes_drop_toks)
  from j d tkk s tp kt we show ?thesis
    unfolding tk by (intro exI [of _ ?r] conjI) simp_all
qed

theorem join_drops_whole_tokens_witness:
  "consistent (URLString_init ''%41CDE'') \<and> 2 \<le> len (URLString_init ''%41CDE'') \<and>
   (\<exists>r. join (URLString_init ''AB%41C'') (URLString_init ''%41CDE'') 2 = Inr r \<and>
        string r = ''AB%41CDE'')"
proof -
  have c: "consistent (URLString_init ''%41CDE'')" by simp
  have k: "2 \<le> len (URLString_init ''%41CDE'')"
    by (simp add: len_init TERMINATOR_def)
  have p: "true_positions (URLString_init ''%41CDE'') ! 2 = 4"
    by (simp add: true_positions_init scan_positions.simps TERMINATOR_def)
  from join_drops_whole_tokens [OF c k, of "URLString_init ''AB%41C''"] c k p
  show ?thesis by auto
qed

text \<open>
  C6: the candidate list that the traversal records for a fragment holds its entries in
  increasing order of overlap, counted in tokens (entries pushed at the same node have the
  same overlap, entries pushed deeper a larger or equal one); so \<open>stitch\<close>, which reads
  the list from the back with \<open>cands[-(i+1)]\<close>, meets the candidates from the largest
  overlap to the smallest. This holds for the traversal of any tree from a path text
  whose table is the one of its raw text, as the empty text of the root is.
\<close>

theorem candidate_lists_sorted_by_overlap:
  assumes "consistent s"
    and "dfs_join node s [] (replicate n None) = Inr (ms, join_array)"
    and "f < length join_array" and "join_array ! f = Some cands"
  shows "sorted (overlap_lens cands) \<and>
         (\<forall>i j. i \<le> j \<and> j < length cands \<longrightarrow>
            len (snd (cands ! (length cands - (j + 1)))) \<le> len (snd (cands ! (length cands - (i + 1)))))"
proof -
  have "stack_ok s []" by (simp add: stack_ok_def overlap_lens_def)
  moreover have "entries_sorted (replicate n None)"
    by (simp add: entries_sorted_def list_all_iff)
  ultimately have "entries_sorted join_array"
    using dfs_join_keeps_order(1) [OF assms(1) _ _ assms(2)] by simp
  with assms(3,4) have srt: "sorted (overlap_lens cands)"
    by (force simp: entries_sorted_def list_all_length)
  have "len (snd (cands ! (length cands - (j + 1)))) \<le> len (snd (cands ! (length cands - (i + 1))))"
    if "i \<le> j" and "j < length cands" for i j
  proof -
    from that have a: "length cands - (j + 1) \<le> length cands - (i + 1)"
      and b: "length cands - (i + 1) < length (overlap_lens cands)"
      by (simp_all add: overlap_lens_def)
    from sorted_nth_mono [OF srt a b] b show ?thesis
      by (simp add: overlap_lens_def)
  qed
  with srt show ?thesis by blast
qed

theorem candidate_lists_sorted_by_overlap_witness:
  "consistent EMPTY_URL_STRING \<and>
   dfs_join (root (snd (projr (build [''xAAAA'', ''AAAAy''] 0 [] (URLSuffixTree_init MIN_OVERLAP)))))
     EMPTY_URL_STRING [] (replicate 2 None)
     = Inr ([], [Some [], Some [(0, URLString_init ''AAA''), (0, URLString_init ''AAAA'')]]) \<and>
   overlap_lens [(0, URLString_init ''AAA''), (0, URLString_init ''AAAA'')] = [3, 4] \<and>
   sorted (overlap_lens [(0, URLString_init ''AAA''), (0, URLString_init ''AAAA'')])"
proof -
  let ?node = "root (snd (projr (build [''xAAAA'', ''AAAAy''] 0 [] (URLSuffixTree_init MIN_OVERLAP))))"
  let ?cands = "[(0, URLString_init ''AAA''), (0, URLString_init ''AAAA'')]"
  let ?ja = "[Some [], Some ?cands]"
  have c: "consistent EMPTY_URL_STRING" by (simp add: EMPTY_URL_STRING_def)
  have d: "dfs_join ?node EMPTY_URL_STRING [] (replicate 2 None) = Inr ([], ?ja)"
    by code_simp
  have l: "overlap_lens ?cands = [3, 4]" by code_simp
  have f: "1 < length ?ja" and e: "?ja ! 1 = Some ?cands" by simp_all
  from candidate_lists_sorted_by_overlap [OF c d f e] c d l show ?thesis by simp
qed

text \<open>
  C7, at a failing input: no fragment at all. No entry of \<open>join_array\<close> is empty, the
  loop over the forced heads runs zero times, and \<open>result\<close> is read unbound: the
  result is an UnboundLocalError, not \<open>None\<close>.
\<close>

theorem reconstruct_no_fragment_raises:
  "reconstruct (\<lambda>s. s) [] = Inl UnboundLocalError"
  by code_simp

text \<open>
  C8: for every string whose token length is below the minimum of the tree, \<open>insert\<close>
  returns normally and leaves the tree as it was. So no suffix shorter than the minimum
  enters the tree: after any sequence of insertions into an empty tree of minimum \<open>m\<close>,
  every node with an identity (the end of an inserted suffix and its terminator) lies at
  least \<open>m + 1\<close> tokens below the root. The texts inserted are those whose scan ends at
  their end (no terminator, no percent sign cut short by the end), so that the appended
  terminator is a token of its own.
\<close>

theorem insert_short_is_noop:
  "(len s < min_suffix_len t \<longrightarrow> insert t s str_id = Inr t) \<and>
   (list_all (\<lambda>op. closed_text (fst op)) ops \<and> insert_all (URLSuffixTree_init m) ops = Inr t'
      \<longrightarrow> ids_deep (m + 1) 0 (root t'))"
proof (intro conjI impI)
  assume "len s < min_suffix_len t"
  then show "insert t s str_id = Inr t" by (simp add: insert.simps)
next
  assume a: "list_all (\<lambda>op. closed_text (fst op)) ops \<and>
             insert_all (URLSuffixTree_init m) ops = Inr t'"
  have i: "tree_inv (m + 1) 0 (root (URLSuffixTree_init m))" by (rule root_inv_init)
  have "m + 1 \<le> min_suffix_len (URLSuffixTree_init m)
                  + (if list_all (\<lambda>op. closed_text (fst op)) ops then 1 else 0)"
    using a by (simp add: URLSuffixTree_init_def)
  from insert_all_inv [OF i this] a have "tree_inv (m + 1) 0 (root t')" by simp
  then show "ids_deep (m + 1) 0 (root t')" by (rule tree_inv_ids_deep(1))
qed

theorem insert_short_is_noop_witness:
  "len (URLString_init ''AB'') < min_suffix_len (URLSuffixTree_init MIN_OVERLAP) \<and>
   insert (URLSuffixTree_init MIN_OVERLAP) (URLString_init ''AB'') (0, 0)
     = Inr (URLSuffixTree_init MIN_OVERLAP) \<and>
   list_all (\<lambda>op. closed_text (fst op)) [(''ABCD'', 0, 0), (''x%42CD'', 1, 0)] \<and>
   insert_all (URLSuffixTree_init 3) [(''ABCD'', 0, 0), (''x%42CD'', 1, 0)]
     = Inr (projr (insert_all (URLSuffixTree_init 3) [(''ABCD'', 0, 0), (''x%42CD'', 1, 0)])) \<and>
   ids_deep 4 0 (root (projr (insert_all (URLSuffixTree_init 3) [(''ABCD'', 0, 0), (''x%42CD'', 1, 0)])))"
proof -
  let ?ops = "[(''ABCD'', 0, 0), (''x%42CD'', 1, 0)] :: (string \<times> nat \<times> nat) list"
  have h: "len (URLString_init ''AB'') < min_suffix_len (URLSuffixTree_init MIN_OVERLAP)"
    by code_simp
  have c: "list_all (\<lambda>op. closed_text (fst op)) ?ops"
    by code_simp
  have b: "insert_all (URLSuffixTree_init 3) ?ops = Inr (projr (insert_all (URLSuffixTree_init 3) ?ops))"
    by code_simp
  from insert_short_is_noop [of "URLString_init ''AB''" "URLSuffixTree_init MIN_OVERLAP" "(0, 0)"
      ?ops 3 "projr (insert_all (URLSuffixTree_init 3) ?ops)"] h c b
  show ?thesis by simp
qed

text \<open>
  C9, as the specification states it: equal raw texts hash equally. No hash is defined:
  hashing a URLString raises TypeError.
\<close>

theorem URLString_is_unhashable:
  "URLString_hash (URLString_init ''a'') = Inl TypeError"
  by (simp add: URLString_hash_def)

text \<open>
  C9, amended: equality is defined over the raw text, not over the object: a URLString
  equals another URLString exactly when their raw texts are equal, whatever their tables,
  and equals a plain string exactly when its raw text is that string. Hashing is not
  defined: it raises TypeError for every URLString.
\<close>

theorem URLString_eq_raw_text:
  "(URLString_eq a (Url b) \<longleftrightarrow> string a = string b) \<and>
   (URLString_eq a (Str s) \<longleftrightarrow> string a = s) \<and>
   URLString_eq (a\<lparr>true_positions := tp\<rparr>) (Url a) \<and>
   URLString_hash a = Inl TypeError"
  by (simp add: URLString_hash_def)

text \<open>
  C10: after any sequence of insertions into an empty tree, every child whose label
  begins with the terminator token has an identity, and the traversal of the tree never
  raises the TypeError of reading \<open>identity[1]\<close> of a node without identity, whatever
  path text, stack and \<open>join_array\<close> it is started with.
\<close>

theorem terminator_children_have_identity:
  assumes "insert_all (URLSuffixTree_init m) ops = Inr t"
  shows "term_children_identified (root t) \<and>
         dfs_join (root t) s match_stack join_array \<noteq> Inl TypeError"
proof -
  have "tree_inv 0 0 (root (URLSuffixTree_init m))" by (rule root_inv_init)
  from insert_all_inv [OF this _ assms] have "tree_inv 0 0 (root t)" by simp
  then show ?thesis
    by (simp add: tree_inv_term_children(1) dfs_join_no_TypeError(1))
qed

theorem terminator_children_have_identity_witness:
  "insert_all (URLSuffixTree_init 3) [(''ABCD'', 0, 0), (''xBCD'', 1, 0)]
     = Inr (projr (insert_all (URLSuffixTree_init 3) [(''ABCD'', 0, 0), (''xBCD'', 1, 0)])) \<and>
   term_children_identified
     (root (projr (insert_all (URLSuffixTree_init 3) [(''ABCD'', 0, 0), (''xBCD'', 1, 0)]))) \<and>
   children (root (projr (insert_all (URLSuffixTree_init 3) [(''ABCD'', 0, 0), (''xBCD'', 1, 0)])))
     \<noteq> []"
proof -
  let ?ops = "[(''ABCD'', 0, 0), (''xBCD'', 1, 0)]"
  have b: "insert_all (URLSuffixTree_init 3) ?ops = Inr (projr (insert_all (URLSuffixTree_init 3) ?ops))"
    by code_simp
  have c: "children (root (projr (insert_all (URLSuffixTree_init 3) ?ops))) \<noteq> []"
    by code_simp
  from terminator_children_have_identity [OF b] b c show ?thesis by simp
qed

end
